theory Spec2Isabelle
  imports Main "HOL-Library.Sublist" "HOL-Library.AList"
begin

section \<open>The incremental dataset mirror: model of \<^verbatim>\<open>main.py\<close>\<close>

subsection \<open>Column and title normalisation: \<^verbatim>\<open>to_snake_case\<close>\<close>

text \<open>
  Python strings are modelled as \<^typ>\<open>string\<close>, a list of 8-bit characters read as code
  points. The character classes are those of the regular expression
  \<^verbatim>\<open>[^a-zA-Z0-9]\<close> of the source, which are ASCII ranges. \<^verbatim>\<open>str.lower\<close> maps
  \<^verbatim>\<open>A-Z\<close> to \<^verbatim>\<open>a-z\<close>. It also changes letters beyond ASCII, but within this range of
  characters to letters that are again outside \<^verbatim>\<open>[a-zA-Z0-9]\<close>; the substitution
  replaces such a character by the separator whether it was lowered or not, so the model
  lowers \<^verbatim>\<open>A-Z\<close> alone.
\<close>

definition is_upper :: "char \<Rightarrow> bool" where
  "is_upper c = (65 \<le> (of_char c :: nat) \<and> (of_char c :: nat) \<le> 90)"

definition is_lower :: "char \<Rightarrow> bool" where
  "is_lower c = (97 \<le> (of_char c :: nat) \<and> (of_char c :: nat) \<le> 122)"

definition is_digit :: "char \<Rightarrow> bool" where
  "is_digit c = (48 \<le> (of_char c :: nat) \<and> (of_char c :: nat) \<le> 57)"

definition is_alnum :: "char \<Rightarrow> bool" where
  "is_alnum c = (is_lower c \<or> is_upper c \<or> is_digit c)"

definition lower_char :: "char \<Rightarrow> char" where
  "lower_char c = (if is_upper c then char_of (of_char c + (32 :: nat)) else c)"

definition lower :: "string \<Rightarrow> string" where
  "lower s = map lower_char s"

text \<open>
  \<^verbatim>\<open>re.sub(r"[C]+", repl, s)\<close> for a character class \<open>C\<close> (the predicate \<open>p\<close>): scanning
  from the left, a character outside the class is copied; at a character of the class the
  greedy \<^verbatim>\<open>+\<close> consumes the maximal run and the replacement is written once.
\<close>

function re_sub_run :: "(char \<Rightarrow> bool) \<Rightarrow> string \<Rightarrow> string \<Rightarrow> string" where
  "re_sub_run p repl [] = []"
| "re_sub_run p repl (c # cs) =
     (if p c then repl @ re_sub_run p repl (dropWhile p cs)
      else c # re_sub_run p repl cs)"
  by pat_completeness auto
termination
  by (relation "measure (\<lambda>(p, repl, s). length s)")
     (auto simp: le_imp_less_Suc length_dropWhile_le)

text \<open>\<^verbatim>\<open>s.strip(chars)\<close>: drop the characters of the set from both ends.\<close>

definition strip :: "(char \<Rightarrow> bool) \<Rightarrow> string \<Rightarrow> string" where
  "strip p s = rev (dropWhile p (rev (dropWhile p s)))"

text \<open>
  \<^verbatim>\<open>
  def to_snake_case(name):
      name = re.sub(r"[^a-zA-Z0-9]+", "_", name.lower())
      name = re.sub(r"_+", "_", name)
      return name.strip("_")
  \<close>
\<close>

definition to_snake_case :: "string \<Rightarrow> string" where
  "to_snake_case name =
     (let name = re_sub_run (\<lambda>c. \<not> is_alnum c) ''_'' (lower name);
          name = re_sub_run (\<lambda>c. c = CHR ''_'') ''_'' name
      in strip (\<lambda>c. c = CHR ''_'') name)"

text \<open>
  Two predicates used in the proofs: \<open>norun p s\<close> says that no two neighbours of \<open>s\<close> both
  satisfy \<open>p\<close>; \<open>snake_char\<close> is the output alphabet.
\<close>

fun norun :: "('a \<Rightarrow> bool) \<Rightarrow> 'a list \<Rightarrow> bool" where
  "norun p [] = True"
| "norun p [c] = True"
| "norun p (a # b # cs) = (\<not> (p a \<and> p b) \<and> norun p (b # cs))"

definition snake_char :: "char \<Rightarrow> bool" where
  "snake_char c = (is_lower c \<or> is_digit c \<or> c = CHR ''_'')"

subsection \<open>Calendar dates\<close>

text \<open>
  The value of \<^verbatim>\<open>datetime.strptime(s, "%Y-%m-%d").date()\<close> is a calendar date; Python
  compares dates as the triples (year, month, day), \<open>date_le\<close> being \<^verbatim>\<open><=\<close> and
  \<open>date_less\<close> the strict order.
\<close>

datatype date = Date (year: nat) (month: nat) (day: nat)

definition date_le :: "date \<Rightarrow> date \<Rightarrow> bool" where
  "date_le a b =
     (year a < year b \<or> (year a = year b \<and>
       (month a < month b \<or> (month a = month b \<and> day a \<le> day b))))"

definition date_less :: "date \<Rightarrow> date \<Rightarrow> bool" where
  "date_less a b =
     (year a < year b \<or> (year a = year b \<and>
       (month a < month b \<or> (month a = month b \<and> day a < day b))))"

text \<open>
  A date object exists only for a year from 1 to 9999 and a day of the month that the
  calendar has; \<^verbatim>\<open>strptime\<close> raises \<^verbatim>\<open>ValueError\<close> otherwise.
\<close>

definition is_leap :: "nat \<Rightarrow> bool" where
  "is_leap y = (y mod 4 = 0 \<and> (y mod 100 \<noteq> 0 \<or> y mod 400 = 0))"

definition days_in_month :: "nat \<Rightarrow> nat \<Rightarrow> nat" where
  "days_in_month y m =
     (if m = 2 then (if is_leap y then 29 else 28)
      else if m = 4 \<or> m = 6 \<or> m = 9 \<or> m = 11 then 30 else 31)"

definition valid_date :: "nat \<Rightarrow> nat \<Rightarrow> nat \<Rightarrow> bool" where
  "valid_date y m d =
     (1 \<le> y \<and> y \<le> 9999 \<and> 1 \<le> m \<and> m \<le> 12 \<and> 1 \<le> d \<and> d \<le> days_in_month y m)"

text \<open>
  \<^verbatim>\<open>strptime\<close> compiles the format \<^verbatim>\<open>%Y-%m-%d\<close> to the regular expression
  \<^verbatim>\<open>(\d\d\d\d)-(1[0-2]|0[1-9]|[1-9])-(3[0-1]|[1-2]\d|0[1-9]|[1-9]| [1-9])\<close>,
  matches it at the start of the string and raises \<^verbatim>\<open>ValueError\<close> when there is no
  match or when the match does not reach the end of the string. Each piece of the
  expression is modelled by the list of its matches at the start of a string, in the
  order in which the backtracking matcher tries the alternatives; a match is a value with
  the rest of the string. Among the 8-bit characters \<^verbatim>\<open>\d\<close> is \<^verbatim>\<open>0-9\<close>.
\<close>

definition digit_val :: "char \<Rightarrow> nat" where
  "digit_val c = of_char c - 48"

definition in_range :: "char \<Rightarrow> char \<Rightarrow> char \<Rightarrow> bool" where
  "in_range lo hi c = ((of_char lo :: nat) \<le> of_char c \<and> (of_char c :: nat) \<le> of_char hi)"

fun re_lit :: "char \<Rightarrow> string \<Rightarrow> string list" where
  "re_lit c [] = []"
| "re_lit c (x # xs) = (if x = c then [xs] else [])"

fun re_Y :: "string \<Rightarrow> (nat \<times> string) list" where
  "re_Y (a # b # c # d # rest) =
     (if is_digit a \<and> is_digit b \<and> is_digit c \<and> is_digit d
      then [(1000 * digit_val a + 100 * digit_val b + 10 * digit_val c + digit_val d, rest)]
      else [])"
| "re_Y s = []"

fun re_two :: "(char \<Rightarrow> bool) \<Rightarrow> (char \<Rightarrow> bool) \<Rightarrow> string \<Rightarrow> (nat \<times> string) list" where
  "re_two p q (a # b # rest) =
     (if p a \<and> q b then [(10 * digit_val a + digit_val b, rest)] else [])"
| "re_two p q s = []"

fun re_one :: "(char \<Rightarrow> bool) \<Rightarrow> string \<Rightarrow> (nat \<times> string) list" where
  "re_one p (a # rest) = (if p a then [(digit_val a, rest)] else [])"
| "re_one p s = []"

fun re_space_one :: "string \<Rightarrow> (nat \<times> string) list" where
  "re_space_one (a # b # rest) =
     (if a = CHR '' '' \<and> in_range (CHR ''1'') (CHR ''9'') b then [(digit_val b, rest)] else [])"
| "re_space_one s = []"

definition re_m :: "string \<Rightarrow> (nat \<times> string) list" where
  "re_m s =
     re_two (\<lambda>c. c = CHR ''1'') (in_range (CHR ''0'') (CHR ''2'')) s
     @ re_two (\<lambda>c. c = CHR ''0'') (in_range (CHR ''1'') (CHR ''9'')) s
     @ re_one (in_range (CHR ''1'') (CHR ''9'')) s"

definition re_d :: "string \<Rightarrow> (nat \<times> string) list" where
  "re_d s =
     re_two (\<lambda>c. c = CHR ''3'') (in_range (CHR ''0'') (CHR ''1'')) s
     @ re_two (in_range (CHR ''1'') (CHR ''2'')) is_digit s
     @ re_two (\<lambda>c. c = CHR ''0'') (in_range (CHR ''1'') (CHR ''9'')) s
     @ re_one (in_range (CHR ''1'') (CHR ''9'')) s
     @ re_space_one s"

text \<open>
  The matches of the whole expression, the matcher's first choice first, and the parse:
  \<open>None\<close> stands for \<^verbatim>\<open>ValueError\<close>.
\<close>

definition strptime_match :: "string \<Rightarrow> (nat \<times> nat \<times> nat \<times> string) list" where
  "strptime_match s =
     [(y, m, d, r5).
        (y, r1) \<leftarrow> re_Y s, r2 \<leftarrow> re_lit (CHR ''-'') r1,
        (m, r3) \<leftarrow> re_m r2, r4 \<leftarrow> re_lit (CHR ''-'') r3,
        (d, r5) \<leftarrow> re_d r4]"

definition strptime :: "string \<Rightarrow> date option" where
  "strptime s =
     (case strptime_match s of
        [] \<Rightarrow> None
      | (y, m, d, r) # _ \<Rightarrow>
          if r \<noteq> [] then None
          else if valid_date y m d then Some (Date y m d)
          else None)"

text \<open>\<^verbatim>\<open>date.isoformat()\<close>, that is \<^verbatim>\<open>"%04d-%02d-%02d" % (year, month, day)\<close>.\<close>

definition digit_char :: "nat \<Rightarrow> char" where
  "digit_char n = char_of (48 + n mod 10)"

definition isoformat :: "date \<Rightarrow> string" where
  "isoformat dt =
     [digit_char (year dt div 1000), digit_char (year dt div 100),
      digit_char (year dt div 10), digit_char (year dt)]
     @ ''-'' @ [digit_char (month dt div 10), digit_char (month dt)]
     @ ''-'' @ [digit_char (day dt div 10), digit_char (day dt)]"

subsection \<open>Catalog descriptors and the change selector\<close>

text \<open>
  The exceptions of the program are values. \<open>NotModelled\<close> is not an exception: it marks
  a checkpoint text that the model of the JSON decoder below does not cover.
\<close>

datatype error =
    KeyError string
  | ValueError
  | JSONDecodeError
  | RequestException
  | ParserError
  | OSError
  | UnicodeEncodeError
  | NotModelled

text \<open>
  A catalog entry is a JSON object. The fields the program reads are options, \<open>None\<close> for
  a missing key (for \<^verbatim>\<open>modified\<close> also for JSON \<^verbatim>\<open>null\<close>); \<open>theme\<close> and \<open>distribution\<close>
  are read with the default \<^verbatim>\<open>[]\<close>. The checkpoint (\<^verbatim>\<open>metadata\<close>) is a Python dictionary
  from identifier to date string: an association list with distinct keys in insertion
  order, read with \<open>map_of\<close> and written with \<open>AList.update\<close>. A task is the tuple
  \<^verbatim>\<open>(url, identifier, modified_date, title)\<close> appended to \<^verbatim>\<open>to_download\<close>.
\<close>

record dist =
  mediaType :: "string option"
  downloadURL :: "string option"

record dataset =
  theme :: "string list"
  "identifier" :: "string option"
  title :: "string option"
  modified :: "string option"
  distribution :: "dist list"

type_synonym metadata = "(string \<times> string) list"

type_synonym task = "string \<times> string \<times> date \<times> string"

text \<open>
  What is outside the program is a record of functions: the catalog request
  (\<^verbatim>\<open>requests.get\<close>, \<^verbatim>\<open>raise_for_status\<close> and \<^verbatim>\<open>response.json\<close> together),
  \<^verbatim>\<open>pd.read_csv\<close>, which raises or returns a frame, of which the model keeps the column
  labels, \<^verbatim>\<open>os.makedirs\<close> and \<^verbatim>\<open>DataFrame.to_csv\<close>, which raise or not, and
  \<^verbatim>\<open>print\<close>, which raises when standard output does not take the text (it cannot
  encode a character, or it is closed). \<open>exc_text\<close> is \<^verbatim>\<open>str(e)\<close>, the text of an exception
  in a message. The errors are the subclasses of \<^verbatim>\<open>Exception\<close>.
\<close>

record world =
  http_get_json :: "string \<Rightarrow> error + dataset list"
  read_csv :: "string \<Rightarrow> error + string list"
  makedirs :: "string \<Rightarrow> error option"
  to_csv :: "string \<Rightarrow> string list \<Rightarrow> error option"
  print :: "string \<Rightarrow> error option"
  exc_text :: "error \<Rightarrow> string"

text \<open>\<^verbatim>\<open>sub in s\<close> on strings, and the truth value of a string that may be \<^verbatim>\<open>None\<close>.\<close>

fun str_in :: "string \<Rightarrow> string \<Rightarrow> bool" where
  "str_in sub [] = (sub = [])"
| "str_in sub (c # cs) = (prefix sub (c # cs) \<or> str_in sub cs)"

definition truthy :: "string option \<Rightarrow> bool" where
  "truthy v = (case v of None \<Rightarrow> False | Some s \<Rightarrow> s \<noteq> [])"

text \<open>
  Lines 87 to 91 of \<^verbatim>\<open>main\<close>: the first distribution of media type \<^verbatim>\<open>text/csv\<close> is
  taken, and \<^verbatim>\<open>dist["downloadURL"]\<close> raises \<^verbatim>\<open>KeyError\<close> when that distribution has no
  URL.
  \<^verbatim>\<open>
  for dist in dataset.get("distribution", []):
      if dist.get("mediaType") == "text/csv":
          url = dist["downloadURL"]
          to_download.append((url, identifier, modified_date, title))
          break
  \<close>
\<close>

fun find_csv :: "dist list \<Rightarrow> error + string option" where
  "find_csv [] = Inr None"
| "find_csv (d # ds) =
     (if mediaType d = Some ''text/csv''
      then (case downloadURL d of
              None \<Rightarrow> Inl (KeyError ''downloadURL'')
            | Some url \<Rightarrow> Inr (Some url))
      else find_csv ds)"

definition emit :: "dataset \<Rightarrow> string \<Rightarrow> date \<Rightarrow> string \<Rightarrow> error + task option" where
  "emit ds ident modified_date ttl =
     (case find_csv (distribution ds) of
        Inl e \<Rightarrow> Inl e
      | Inr None \<Rightarrow> Inr None
      | Inr (Some url) \<Rightarrow> Inr (Some (url, ident, modified_date, ttl)))"

definition skip_invalid_date :: "world \<Rightarrow> string \<Rightarrow> error + task option" where
  "skip_invalid_date w modified_str =
     (case print w (''Skipping dataset with invalid date format: '' @ modified_str) of
        Some e \<Rightarrow> Inl e
      | None \<Rightarrow> Inr None)"

text \<open>
  The body of the loop over the catalog (lines 63 to 91). The result is \<open>Inl\<close> for an
  exception that leaves the loop (it ends the run), \<open>Inr None\<close> when the descriptor is
  skipped and \<open>Inr (Some t)\<close> when the task \<open>t\<close> is appended. Both calls of
  \<^verbatim>\<open>strptime\<close> are inside the \<^verbatim>\<open>try\<close>, so \<^verbatim>\<open>ValueError\<close> from either reaches the
  handler (\<open>skip_invalid_date\<close>), which prints and skips the descriptor; an exception
  of that \<^verbatim>\<open>print\<close> leaves the loop.
  \<^verbatim>\<open>
  themes = dataset.get("theme", [])
  if any("Hospitals" in theme for theme in themes):
      identifier = dataset["identifier"]
      title = dataset.get("title", "untitled")
      modified_str = dataset.get("modified")
      if modified_str:
          try:
              modified_date = datetime.strptime(modified_str, "%Y-%m-%d").date()
              last_modified_str = metadata.get(identifier)
              if last_modified_str:
                  last_modified_date = datetime.strptime(last_modified_str, "%Y-%m-%d").date()
                  if modified_date <= last_modified_date:
                      continue
          except ValueError:
              print(f"Skipping dataset with invalid date format: {modified_str}")
              continue
      else:
          continue
  \<close>
\<close>

definition select_one :: "world \<Rightarrow> metadata \<Rightarrow> dataset \<Rightarrow> error + task option" where
  "select_one w metadata ds =
     (if list_ex (str_in ''Hospitals'') (theme ds) then
        (case identifier ds of
           None \<Rightarrow> Inl (KeyError ''identifier'')
         | Some ident \<Rightarrow>
             let ttl = (case title ds of None \<Rightarrow> ''untitled'' | Some t \<Rightarrow> t);
                 modified_str = modified ds
             in if truthy modified_str then
                  (case strptime (the modified_str) of
                     None \<Rightarrow> skip_invalid_date w (the modified_str)
                   | Some modified_date \<Rightarrow>
                       let last_modified_str = map_of metadata ident
                       in if truthy last_modified_str then
                            (case strptime (the last_modified_str) of
                               None \<Rightarrow> skip_invalid_date w (the modified_str)
                             | Some last_modified_date \<Rightarrow>
                                 if date_le modified_date last_modified_date then Inr None
                                 else emit ds ident modified_date ttl)
                          else emit ds ident modified_date ttl)
                else Inr None)
      else Inr None)"

text \<open>The loop itself, with \<^verbatim>\<open>to_download\<close> as accumulator.\<close>

fun select_loop :: "world \<Rightarrow> metadata \<Rightarrow> dataset list \<Rightarrow> task list \<Rightarrow> error + task list" where
  "select_loop w metadata [] to_download = Inr to_download"
| "select_loop w metadata (ds # datasets) to_download =
     (case select_one w metadata ds of
        Inl e \<Rightarrow> Inl e
      | Inr None \<Rightarrow> select_loop w metadata datasets to_download
      | Inr (Some t) \<Rightarrow> select_loop w metadata datasets (to_download @ [t]))"

text \<open>
  The tasks one descriptor contributes to \<^verbatim>\<open>to_download\<close>, and whether a descriptor has
  a distribution of media type \<^verbatim>\<open>text/csv\<close>.
\<close>

definition emitted :: "world \<Rightarrow> metadata \<Rightarrow> dataset \<Rightarrow> task list" where
  "emitted w metadata ds = (case select_one w metadata ds of Inr (Some t) \<Rightarrow> [t] | _ \<Rightarrow> [])"

definition has_csv :: "dataset \<Rightarrow> bool" where
  "has_csv ds = list_ex (\<lambda>d. mediaType d = Some ''text/csv'') (distribution ds)"

subsection \<open>The checkpoint file\<close>

text \<open>The constants of the program.\<close>

definition METASTORE_URL :: string where
  "METASTORE_URL = ''https://data.cms.gov/provider-data/api/1/metastore/schemas/dataset/items''"

definition METADATA_FILE :: string where
  "METADATA_FILE = ''metadata.json''"

definition OUTPUT_DIR :: string where
  "OUTPUT_DIR = ''processed_csv''"

text \<open>
  \<^verbatim>\<open>json.dump(metadata, f, indent=4)\<close> writes the chunks of \<^verbatim>\<open>iterencode\<close> to the file
  one after the other. A string is encoded by \<^verbatim>\<open>encode_basestring_ascii\<close>: the quote, the
  backslash and the control characters with a short escape are escaped, the characters
  from space to tilde stand for themselves and any other character \<open>c\<close> is written
  \<^verbatim>\<open>\u00XX\<close> in lowercase hexadecimal.
\<close>

definition hex_digit :: "nat \<Rightarrow> char" where
  "hex_digit n = (if n < 10 then char_of (48 + n) else char_of (87 + n))"

definition escape_char :: "char \<Rightarrow> string" where
  "escape_char c =
     (if c = CHR 0x22 then [CHR 0x5C, CHR 0x22]
      else if c = CHR 0x5C then [CHR 0x5C, CHR 0x5C]
      else if c = CHR 0x0A then [CHR 0x5C, CHR ''n'']
      else if c = CHR 0x0D then [CHR 0x5C, CHR ''r'']
      else if c = CHR 0x09 then [CHR 0x5C, CHR ''t'']
      else if c = CHR 0x08 then [CHR 0x5C, CHR ''b'']
      else if c = CHR 0x0C then [CHR 0x5C, CHR ''f'']
      else if in_range (CHR '' '') (CHR ''~'') c then [c]
      else [CHR 0x5C, CHR ''u'', CHR ''0'', CHR ''0'',
            hex_digit (of_char c div 16), hex_digit (of_char c mod 16)])"

definition encode_basestring_ascii :: "string \<Rightarrow> string" where
  "encode_basestring_ascii s = CHR 0x22 # concat (map escape_char s) @ [CHR 0x22]"

text \<open>
  With \<^verbatim>\<open>indent=4\<close> the separators are \<^verbatim>\<open>","\<close> and \<^verbatim>\<open>": "\<close>, and every item starts on
  a new line indented by four spaces. Keys and values are strings.
\<close>

definition newline_indent :: string where
  "newline_indent = CHR 0x0A # ''    ''"

fun item_chunks :: "bool \<Rightarrow> metadata \<Rightarrow> string list" where
  "item_chunks first [] = []"
| "item_chunks first ((k, v) # items) =
     (if first then [] else ['','' @ newline_indent])
     @ [encode_basestring_ascii k, '': '', encode_basestring_ascii v]
     @ item_chunks False items"

definition iterencode :: "metadata \<Rightarrow> string list" where
  "iterencode metadata =
     (if metadata = [] then [''{}'']
      else [''{'', newline_indent] @ item_chunks True metadata @ [[CHR 0x0A], ''}''])"

text \<open>
  \<^verbatim>\<open>json.load\<close> on the text of the checkpoint file. The model covers the documents that
  hold nothing but whitespace, braces, colons, commas and strings, whose escapes denote
  8-bit characters: such a text is decoded to the dictionary Python returns, or rejected
  with \<open>JSONDecodeError\<close> where Python raises it. For a text with the start of another
  kind of value (a number, a list, a literal, a nested object), a top-level string or an
  escape outside the 8-bit range, the result is \<open>NotModelled\<close>. The decoder is strict: a
  control character inside a string is an error.
\<close>

datatype token = LBrace | RBrace | Colon | Comma | Str string

definition is_ws :: "char \<Rightarrow> bool" where
  "is_ws c = (c = CHR '' '' \<or> c = CHR 0x09 \<or> c = CHR 0x0A \<or> c = CHR 0x0D)"

definition hex_val :: "char \<Rightarrow> nat option" where
  "hex_val c =
     (if is_digit c then Some (of_char c - 48)
      else if in_range (CHR ''a'') (CHR ''f'') c then Some (of_char c - 87)
      else if in_range (CHR ''A'') (CHR ''F'') c then Some (of_char c - 55)
      else None)"

definition unescape :: "char \<Rightarrow> char option" where
  "unescape e =
     (if e = CHR 0x22 \<or> e = CHR 0x5C \<or> e = CHR ''/'' then Some e
      else if e = CHR ''b'' then Some (CHR 0x08)
      else if e = CHR ''f'' then Some (CHR 0x0C)
      else if e = CHR ''n'' then Some (CHR 0x0A)
      else if e = CHR ''r'' then Some (CHR 0x0D)
      else if e = CHR ''t'' then Some (CHR 0x09)
      else None)"

definition other_value_start :: "char \<Rightarrow> bool" where
  "other_value_start c = (is_digit c \<or> c \<in> set ''[-tfnNI'')"

definition cons_tok :: "token \<Rightarrow> error + token list \<Rightarrow> error + token list" where
  "cons_tok t r = (case r of Inl e \<Rightarrow> Inl e | Inr ts \<Rightarrow> Inr (t # ts))"

text \<open>
  The lexer: the first argument is \<open>None\<close> between tokens and \<open>Some acc\<close> inside a string
  literal, \<open>acc\<close> holding the characters decoded so far, last first.
\<close>

fun lex :: "string option \<Rightarrow> string \<Rightarrow> error + token list" where
  "lex None [] = Inr []"
| "lex None (c # cs) =
     (if is_ws c then lex None cs
      else if c = CHR ''{'' then cons_tok LBrace (lex None cs)
      else if c = CHR ''}'' then cons_tok RBrace (lex None cs)
      else if c = CHR '':'' then cons_tok Colon (lex None cs)
      else if c = CHR '','' then cons_tok Comma (lex None cs)
      else if c = CHR 0x22 then lex (Some []) cs
      else if other_value_start c then Inl NotModelled
      else Inl JSONDecodeError)"
| "lex (Some acc) [] = Inl JSONDecodeError"
| "lex (Some acc) (c # cs) =
     (if c = CHR 0x22 then cons_tok (Str (rev acc)) (lex None cs)
      else if c = CHR 0x5C then
        (case cs of
           [] \<Rightarrow> Inl JSONDecodeError
         | e # rest \<Rightarrow>
             if e = CHR ''u'' then
               (case rest of
                  h1 # h2 # h3 # h4 # rest' \<Rightarrow>
                    (case (hex_val h1, hex_val h2, hex_val h3, hex_val h4) of
                       (Some a, Some b, Some c, Some d) \<Rightarrow>
                         if a = 0 \<and> b = 0 then lex (Some (char_of (16 * c + d) # acc)) rest'
                         else Inl NotModelled
                     | _ \<Rightarrow> Inl NotModelled)
                | _ \<Rightarrow> Inl JSONDecodeError)
             else
               (case unescape e of
                  Some ch \<Rightarrow> lex (Some (ch # acc)) rest
                | None \<Rightarrow> Inl JSONDecodeError))
      else if (of_char c :: nat) < 32 then Inl JSONDecodeError
      else lex (Some (c # acc)) cs)"

text \<open>
  The members of an object after its opening brace, and the document. A later
  occurrence of a key overrides an earlier one, as in \<^verbatim>\<open>dict(pairs)\<close>.
\<close>

fun parse_members :: "token list \<Rightarrow> error + (string \<times> string) list" where
  "parse_members (Str k # Colon # Str v # Comma # rest) =
     (case parse_members rest of Inl e \<Rightarrow> Inl e | Inr ps \<Rightarrow> Inr ((k, v) # ps))"
| "parse_members (Str k # Colon # Str v # RBrace # rest) =
     (if rest = [] then Inr [(k, v)] else Inl JSONDecodeError)"
| "parse_members (Str k # Colon # LBrace # rest) = Inl NotModelled"
| "parse_members ts = Inl JSONDecodeError"

definition dict_of :: "(string \<times> string) list \<Rightarrow> metadata" where
  "dict_of pairs = foldl (\<lambda>m (k, v). AList.update k v m) [] pairs"

definition json_loads :: "string \<Rightarrow> error + metadata" where
  "json_loads s =
     (case lex None s of
        Inl e \<Rightarrow> Inl e
      | Inr [] \<Rightarrow> Inl JSONDecodeError
      | Inr (LBrace # RBrace # rest) \<Rightarrow> if rest = [] then Inr [] else Inl JSONDecodeError
      | Inr (LBrace # rest) \<Rightarrow>
          (case parse_members rest of Inl e \<Rightarrow> Inl e | Inr pairs \<Rightarrow> Inr (dict_of pairs))
      | Inr (Str v # rest) \<Rightarrow> Inl NotModelled
      | Inr ts \<Rightarrow> Inl JSONDecodeError)"

text \<open>
  The file system maps a path to the text of the file there. \<^verbatim>\<open>open(path, "w")\<close>
  creates the file or truncates it to the empty text, and a write appends.
  \<^verbatim>\<open>save_metadata\<close> opens the checkpoint file and writes the chunks of the encoder.
  \<^verbatim>\<open>
  def load_metadata():
      if os.path.exists(METADATA_FILE):
          with open(METADATA_FILE, "r") as f:
              return json.load(f)
      return {}

  def save_metadata(metadata):
      with open(METADATA_FILE, "w") as f:
          json.dump(metadata, f, indent=4)
  \<close>
\<close>

type_synonym disk = "string \<rightharpoonup> string"

datatype fs_op = Open_w string | Write string string

fun exec :: "fs_op \<Rightarrow> disk \<Rightarrow> disk" where
  "exec (Open_w path) d = d(path \<mapsto> [])"
| "exec (Write path chunk) d = d(path \<mapsto> (case d path of None \<Rightarrow> [] | Some old \<Rightarrow> old) @ chunk)"

definition load_metadata :: "disk \<Rightarrow> error + metadata" where
  "load_metadata d =
     (case d METADATA_FILE of None \<Rightarrow> Inr [] | Some text \<Rightarrow> json_loads text)"

definition save_metadata_ops :: "metadata \<Rightarrow> fs_op list" where
  "save_metadata_ops metadata =
     Open_w METADATA_FILE # map (Write METADATA_FILE) (iterencode metadata)"

definition save_metadata :: "metadata \<Rightarrow> disk \<Rightarrow> disk" where
  "save_metadata metadata d = fold exec (save_metadata_ops metadata) d"

text \<open>
  The file object buffers: what has reached the file when a save is interrupted is the
  truncation and some initial part of the text written so far, of any length.
  \<open>flush_ops\<close> lists the open and then the characters of the encoding one by one, and
  \<open>save_metadata_interrupted n\<close> is the file system after the first \<open>n\<close> of these steps:
  unchanged for \<open>n = 0\<close>, and with the first \<open>n - 1\<close> characters of the encoding in the
  checkpoint file otherwise.
\<close>

definition flush_ops :: "metadata \<Rightarrow> fs_op list" where
  "flush_ops metadata =
     Open_w METADATA_FILE # map (\<lambda>c. Write METADATA_FILE [c]) (concat (iterencode metadata))"

definition save_metadata_interrupted :: "nat \<Rightarrow> metadata \<Rightarrow> disk \<Rightarrow> disk" where
  "save_metadata_interrupted n metadata d = fold exec (take n (flush_ops metadata)) d"

text \<open>
  For the proofs about the encoder and the decoder: the chunks of the encoder paired with
  the tokens the lexer reads from each of them; \<open>lexes_to\<close> says that the lexer reads a
  chunk as its tokens, \<open>partial_ok\<close> that from a chunk cut short it reads an error or
  some of its tokens, never the closing brace.
\<close>

definition prepend_toks :: "token list \<Rightarrow> error + token list \<Rightarrow> error + token list" where
  "prepend_toks ts r = (case r of Inl e \<Rightarrow> Inl e | Inr us \<Rightarrow> Inr (ts @ us))"

fun item_parts :: "bool \<Rightarrow> metadata \<Rightarrow> (string \<times> token list) list" where
  "item_parts first [] = []"
| "item_parts first ((k, v) # items) =
     (if first then [] else [(CHR '','' # newline_indent, [Comma])])
     @ [(encode_basestring_ascii k, [Str k]), ('': '', [Colon]), (encode_basestring_ascii v, [Str v])]
     @ item_parts False items"

fun item_tokens :: "bool \<Rightarrow> metadata \<Rightarrow> token list" where
  "item_tokens first [] = []"
| "item_tokens first ((k, v) # items) =
     (if first then [] else [Comma]) @ [Str k, Colon, Str v] @ item_tokens False items"

definition doc_parts :: "metadata \<Rightarrow> (string \<times> token list) list" where
  "doc_parts metadata =
     [(''{'', [LBrace]), (newline_indent, [])] @ item_parts True metadata
     @ [([CHR 0x0A], []), (''}'', [RBrace])]"

definition lexes_to :: "string \<times> token list \<Rightarrow> bool" where
  "lexes_to p = (\<forall>rest. lex None (fst p @ rest) = prepend_toks (snd p) (lex None rest))"

definition partial_ok :: "string \<times> token list \<Rightarrow> bool" where
  "partial_ok p =
     (\<forall>q. strict_prefix q (fst p) \<longrightarrow>
        lex None q = Inl JSONDecodeError
        \<or> (\<exists>ts. lex None q = Inr ts \<and> prefix ts (snd p) \<and> ts \<noteq> [RBrace]))"

subsection \<open>Ingestion of one dataset and the run\<close>

text \<open>
  \<^verbatim>\<open>os.path.join\<close> for two components, as \<^verbatim>\<open>posixpath\<close> defines it, and the output
  path of \<^verbatim>\<open>process_csv\<close>:
  \<^verbatim>\<open>os.path.join(OUTPUT_DIR, f"{readable_title}-{identifier}.csv")\<close>.
\<close>

definition path_join :: "string \<Rightarrow> string \<Rightarrow> string" where
  "path_join a b =
     (if prefix ''/'' b then b
      else if a = [] \<or> suffix ''/'' a then a @ b
      else a @ ''/'' @ b)"

definition output_path :: "string \<Rightarrow> string \<Rightarrow> string" where
  "output_path ttl ident =
     (let readable_title = to_snake_case ttl
      in path_join OUTPUT_DIR (readable_title @ ''-'' @ ident @ ''.csv''))"

text \<open>
  \<open>process_csv_try\<close> is the body of the \<^verbatim>\<open>try\<close> statement of \<^verbatim>\<open>process_csv\<close>, which
  returns \<^verbatim>\<open>True\<close> or raises; its last step is a \<^verbatim>\<open>print\<close>. \<open>process_csv\<close> adds the
  handler \<^verbatim>\<open>except Exception\<close>, which prints and returns \<^verbatim>\<open>False\<close>; the \<^verbatim>\<open>print\<close> of
  the handler is outside every \<^verbatim>\<open>try\<close>, so an exception it raises leaves
  \<^verbatim>\<open>process_csv\<close>. Both functions have the type of a call that returns a value or
  raises.
  \<^verbatim>\<open>
  def process_csv(url, identifier, title):
      try:
          df = pd.read_csv(url)
          new_columns = {col: to_snake_case(col) for col in df.columns}
          df = df.rename(columns=new_columns)
          os.makedirs(OUTPUT_DIR, exist_ok=True)
          readable_title = to_snake_case(title)
          output_path = os.path.join(OUTPUT_DIR, f"{readable_title}-{identifier}.csv")
          df.to_csv(output_path, index=False)
          print(f"Processed and saved: {output_path}")
          return True
      except Exception as e:
          print(f"Error processing {url}: {e}")
          return False
  \<close>
\<close>

definition process_csv_try :: "world \<Rightarrow> string \<Rightarrow> string \<Rightarrow> string \<Rightarrow> error + bool" where
  "process_csv_try w url ident ttl =
     (case read_csv w url of
        Inl e \<Rightarrow> Inl e
      | Inr columns \<Rightarrow>
          let new_columns = map to_snake_case columns
          in (case makedirs w OUTPUT_DIR of
                Some e \<Rightarrow> Inl e
              | None \<Rightarrow>
                  (case to_csv w (output_path ttl ident) new_columns of
                     Some e \<Rightarrow> Inl e
                   | None \<Rightarrow>
                       (case print w (''Processed and saved: '' @ output_path ttl ident) of
                          Some e \<Rightarrow> Inl e
                        | None \<Rightarrow> Inr True))))"

definition process_csv :: "world \<Rightarrow> string \<Rightarrow> string \<Rightarrow> string \<Rightarrow> error + bool" where
  "process_csv w url ident ttl =
     (case process_csv_try w url ident ttl of
        Inl e \<Rightarrow>
          (case print w (''Error processing '' @ url @ '': '' @ exc_text w e) of
             Some e' \<Rightarrow> Inl e'
           | None \<Rightarrow> Inr False)
      | Inr r \<Rightarrow> Inr r)"

text \<open>
  The pool runs \<^verbatim>\<open>process_csv\<close> once for every task, also when another task raises;
  \<^verbatim>\<open>future.result()\<close> returns the value of the call or raises its exception again,
  which ends the run. The order in which the futures complete is not modelled: the
  results are listed in the order of submission. The last loop of \<^verbatim>\<open>main\<close> then stores
  the new date of every task of \<^verbatim>\<open>to_download\<close>.
  \<^verbatim>\<open>
  if not to_download:
      print("No new datasets to download.")
      return

  with ThreadPoolExecutor(max_workers=5) as executor:
      futures = [executor.submit(process_csv, url, identifier, title)
                for url, identifier, _, title in to_download]
      for future in as_completed(futures):
          future.result()

  for _, identifier, modified_date, _ in to_download:
      metadata[identifier] = modified_date.isoformat()
  save_metadata(metadata)
  \<close>
\<close>

definition submit_all :: "world \<Rightarrow> task list \<Rightarrow> (error + bool) list" where
  "submit_all w to_download =
     map (\<lambda>(url, ident, modified_date, ttl). process_csv w url ident ttl) to_download"

fun future_results :: "(error + bool) list \<Rightarrow> error + unit" where
  "future_results [] = Inr ()"
| "future_results (r # rs) = (case r of Inl e \<Rightarrow> Inl e | Inr b \<Rightarrow> future_results rs)"

fun update_metadata :: "metadata \<Rightarrow> task list \<Rightarrow> metadata" where
  "update_metadata metadata [] = metadata"
| "update_metadata metadata ((url, ident, modified_date, ttl) # rest) =
     update_metadata (AList.update ident (isoformat modified_date) metadata) rest"

text \<open>
  A run ends with an exception, returns early because nothing is to be downloaded, or
  saves the checkpoint; the result holds the dictionary passed to \<^verbatim>\<open>save_metadata\<close> and
  the file system after the run.
\<close>

datatype run_end = No_new_datasets | Saved metadata

definition main :: "world \<Rightarrow> disk \<Rightarrow> error + run_end \<times> disk" where
  "main w d =
     (case load_metadata d of
        Inl e \<Rightarrow> Inl e
      | Inr metadata \<Rightarrow>
     (case http_get_json w METASTORE_URL of
        Inl e \<Rightarrow> Inl e
      | Inr datasets \<Rightarrow>
     (case select_loop w metadata datasets [] of
        Inl e \<Rightarrow> Inl e
      | Inr to_download \<Rightarrow>
          if to_download = [] then
            (case print w ''No new datasets to download.'' of
               Some e \<Rightarrow> Inl e
             | None \<Rightarrow> Inr (No_new_datasets, d))
          else
            (case future_results (submit_all w to_download) of
               Inl e \<Rightarrow> Inl e
             | Inr u \<Rightarrow>
                 let metadata = update_metadata metadata to_download
                 in Inr (Saved metadata, save_metadata metadata d)))))"

text \<open>
  The identifier of a task, and the data of the examples: the dataset \<open>A\<close> with theme
  \<open>Hospitals\<close>, modified on 2024-03-01, with one CSV distribution; a world in which every
  download fails and one in which every download succeeds, both with a standard output
  that takes every text.
\<close>

definition task_identifier :: "task \<Rightarrow> string" where
  "task_identifier t = (case t of (url, ident, modified_date, ttl) \<Rightarrow> ident)"

definition dataset_A :: dataset where
  "dataset_A =
     \<lparr>theme = [''Hospitals''], identifier = Some ''A'',
      title = Some ''Hospital General Information'', modified = Some ''2024-03-01'',
      distribution = [\<lparr>mediaType = Some ''text/csv'', downloadURL = Some ''https://data.cms.gov/A.csv''\<rparr>]\<rparr>"

definition task_A :: task where
  "task_A = (''https://data.cms.gov/A.csv'', ''A'', Date 2024 3 1, ''Hospital General Information'')"

definition offline_world :: world where
  "offline_world =
     \<lparr>http_get_json = (\<lambda>url. if url = METASTORE_URL then Inr [dataset_A] else Inl RequestException),
      read_csv = (\<lambda>url. Inl RequestException),
      makedirs = (\<lambda>path. None),
      to_csv = (\<lambda>path columns. None),
      print = (\<lambda>text. None),
      exc_text = (\<lambda>e. ''HTTP Error 404: Not Found'')\<rparr>"

definition online_world :: world where
  "online_world =
     \<lparr>http_get_json = (\<lambda>url. if url = METASTORE_URL then Inr [dataset_A] else Inl RequestException),
      read_csv = (\<lambda>url. Inr [''Facility ID'', ''Facility Name'']),
      makedirs = (\<lambda>path. None),
      to_csv = (\<lambda>path columns. None),
      print = (\<lambda>text. None),
      exc_text = (\<lambda>e. ''HTTP Error 404: Not Found'')\<rparr>"

text \<open>
  The dataset \<open>E\<close>, whose download URL has the character U+00E9, and a world whose
  standard output is ASCII (\<^verbatim>\<open>print\<close> raises \<^verbatim>\<open>UnicodeEncodeError\<close> on any other
  character), in which the download of \<open>E\<close> fails and that of \<open>A\<close> succeeds.
\<close>

definition url_E :: string where
  "url_E = ''https://data.cms.gov/caf'' @ [CHR 0xE9] @ ''.csv''"

definition dataset_E :: dataset where
  "dataset_E =
     \<lparr>theme = [''Hospitals''], identifier = Some ''E'',
      title = Some ''Hospital Readmissions'', modified = Some ''2024-03-02'',
      distribution = [\<lparr>mediaType = Some ''text/csv'', downloadURL = Some url_E\<rparr>]\<rparr>"

definition task_E :: task where
  "task_E = (url_E, ''E'', Date 2024 3 2, ''Hospital Readmissions'')"

definition ascii_stdout :: "string \<Rightarrow> error option" where
  "ascii_stdout text =
     (if list_ex (\<lambda>c. 128 \<le> (of_char c :: nat)) text then Some UnicodeEncodeError else None)"

definition ascii_world :: world where
  "ascii_world =
     \<lparr>http_get_json =
        (\<lambda>url. if url = METASTORE_URL then Inr [dataset_E, dataset_A] else Inl RequestException),
      read_csv =
        (\<lambda>url. if url = url_E then Inl RequestException
              else Inr [''Facility ID'', ''Facility Name'']),
      makedirs = (\<lambda>path. None),
      to_csv = (\<lambda>path columns. None),
      print = ascii_stdout,
      exc_text = (\<lambda>e. ''HTTP Error 404: Not Found'')\<rparr>"

section \<open>Properties\<close>

subsection \<open>Normalisation\<close>

lemma lower_no_upper: "c \<in> set (lower s) \<Longrightarrow> \<not> is_upper c"
  by (auto simp: lower_def lower_char_def is_upper_def)

lemma lower_ident: "\<forall>c\<in>set s. \<not> is_upper c \<Longrightarrow> lower s = s"
  by (induction s) (auto simp: lower_def lower_char_def)

lemma norun_append_iff:
  "norun p (xs @ ys) =
     (norun p xs \<and> norun p ys \<and> (xs = [] \<or> ys = [] \<or> \<not> (p (last xs) \<and> p (hd ys))))"
proof (induction p xs rule: norun.induct)
  case (1 p)
  then show ?case by simp
next
  case (2 p c)
  then show ?case by (cases ys) auto
next
  case (3 p a b cs)
  then show ?case by auto
qed

lemma norun_rev: "norun p (rev s) = norun p s"
proof (induction s)
  case Nil
  then show ?case by simp
next
  case (Cons a s)
  have "norun p (a # s) = (norun p s \<and> (s = [] \<or> \<not> (p a \<and> p (hd s))))"
    by (cases s) auto
  with Cons show ?case
    by (auto simp: norun_append_iff last_rev)
qed

lemma norun_dropWhile: "norun p s \<Longrightarrow> norun p (dropWhile q s)"
proof -
  assume a: "norun p s"
  have "s = takeWhile q s @ dropWhile q s" by simp
  with a have "norun p (takeWhile q s @ dropWhile q s)" by simp
  then show ?thesis unfolding norun_append_iff by blast
qed

lemma norun_strip: "norun p s \<Longrightarrow> norun p (strip q s)"
  by (simp add: strip_def norun_rev norun_dropWhile)

lemma norun_mono: "(\<And>c. q c \<Longrightarrow> p c) \<Longrightarrow> norun p s \<Longrightarrow> norun q s"
  by (induction p s rule: norun.induct) auto

lemma re_sub_run_hd:
  "re_sub_run p [r] s = [] \<or> hd (re_sub_run p [r] s) = r \<or> \<not> p (hd (re_sub_run p [r] s))"
  by (cases s) auto

lemma re_sub_run_norun: "p r \<Longrightarrow> norun p (re_sub_run p [r] s)"
proof (induction p "[r]" s rule: re_sub_run.induct)
  case (1 p)
  then show ?case by simp
next
  case (2 p c cs)
  show ?case
  proof (cases "p c")
    case True
    let ?t = "re_sub_run p [r] (dropWhile p cs)"
    have n: "norun p ?t" using 2 True by simp
    have "?t = [] \<or> \<not> p (hd ?t)"
    proof (cases "dropWhile p cs")
      case Nil
      then have "?t = re_sub_run p [r] []" by (rule arg_cong)
      then show ?thesis by simp
    next
      case (Cons d ds)
      then have "\<not> p d" using hd_dropWhile[of p cs] by auto
      with Cons show ?thesis by simp
    qed
    with n True show ?thesis by (cases ?t) auto
  next
    case False
    then have n: "norun p (re_sub_run p [r] cs)" using 2 by simp
    with False show ?thesis by (cases "re_sub_run p [r] cs") auto
  qed
qed

lemma re_sub_run_set: "set (re_sub_run p [r] s) \<subseteq> insert r {c \<in> set s. \<not> p c}"
proof (induction p "[r]" s rule: re_sub_run.induct)
  case (1 p)
  then show ?case by simp
next
  case (2 p c cs)
  have "set (dropWhile p cs) \<subseteq> set cs" by (rule set_dropWhileD[THEN subsetI])
  with 2 show ?case by (cases "p c") auto
qed

lemma re_sub_run_ident:
  "norun p s \<Longrightarrow> \<forall>c\<in>set s. p c \<longrightarrow> c = r \<Longrightarrow> re_sub_run p [r] s = s"
proof (induction p "[r]" s rule: re_sub_run.induct)
  case (1 p)
  then show ?case by simp
next
  case (2 p c cs)
  show ?case
  proof (cases "p c")
    case True
    have d: "dropWhile p cs = cs" using "2.prems"(1) True by (cases cs) auto
    have "norun p cs" using "2.prems"(1) by (cases cs) auto
    with 2 True d show ?thesis by auto
  next
    case False
    have "norun p cs" using "2.prems"(1) by (cases cs) auto
    with 2 False show ?thesis by auto
  qed
qed


lemma strip_prefix_of: "\<exists>w. dropWhile p s = strip p s @ w"
proof -
  let ?u = "dropWhile p s"
  have "rev (takeWhile p (rev ?u) @ dropWhile p (rev ?u)) = rev (rev ?u)"
    by (simp only: takeWhile_dropWhile_id)
  then have "rev (dropWhile p (rev ?u)) @ rev (takeWhile p (rev ?u)) = ?u"
    by (simp only: rev_append rev_rev_ident)
  then have "?u = strip p s @ rev (takeWhile p (rev ?u))"
    by (simp only: strip_def)
  then show ?thesis by blast
qed

lemma strip_hd: "strip p s \<noteq> [] \<Longrightarrow> \<not> p (hd (strip p s))"
proof -
  assume ne: "strip p s \<noteq> []"
  obtain w where w: "dropWhile p s = strip p s @ w" using strip_prefix_of by blast
  with ne have "dropWhile p s \<noteq> []" by auto
  then have "\<not> p (hd (dropWhile p s))" by (rule hd_dropWhile)
  with w ne show ?thesis by simp
qed

lemma strip_last: "strip p s \<noteq> [] \<Longrightarrow> \<not> p (last (strip p s))"
proof -
  assume ne: "strip p s \<noteq> []"
  let ?d = "dropWhile p (rev (dropWhile p s))"
  from ne have d: "?d \<noteq> []" by (simp add: strip_def)
  then have "\<not> p (hd ?d)" by (rule hd_dropWhile)
  moreover have "last (strip p s) = hd ?d" using d by (simp add: strip_def last_rev)
  ultimately show ?thesis by simp
qed

lemma strip_set: "set (strip p s) \<subseteq> set s"
proof -
  have "set (strip p s) \<subseteq> set (dropWhile p s)"
    unfolding strip_def by (auto dest: set_dropWhileD)
  then show ?thesis by (auto dest: set_dropWhileD)
qed

lemma strip_ident:
  "s = [] \<or> (\<not> p (hd s) \<and> \<not> p (last s)) \<Longrightarrow> strip p s = s"
proof (cases s)
  case Nil
  then show ?thesis by (simp add: strip_def)
next
  case (Cons a t)
  assume "s = [] \<or> (\<not> p (hd s) \<and> \<not> p (last s))"
  with Cons have h: "\<not> p (hd s)" and l: "\<not> p (last s)" by auto
  from h Cons have 1: "dropWhile p s = s" by simp
  have "hd (rev s) = last s" using Cons by (simp add: hd_rev)
  with l have "dropWhile p (rev s) = rev s" by (simp only: dropWhile_eq_self_iff) simp
  with 1 show ?thesis by (simp add: strip_def)
qed

lemma underscore_not_alnum: "\<not> is_alnum (CHR ''_'')"
  by (simp add: is_alnum_def is_lower_def is_upper_def is_digit_def)

lemma snake_nonalnum: "snake_char c \<Longrightarrow> \<not> is_alnum c \<Longrightarrow> c = CHR ''_''"
  by (auto simp: snake_char_def is_alnum_def)

lemma snake_not_upper: "snake_char c \<Longrightarrow> \<not> is_upper c"
  by (auto simp: snake_char_def is_lower_def is_upper_def is_digit_def)

lemma step1_props:
  "norun (\<lambda>c. \<not> is_alnum c) (re_sub_run (\<lambda>c. \<not> is_alnum c) ''_'' (lower s))"
  "set (re_sub_run (\<lambda>c. \<not> is_alnum c) ''_'' (lower s)) \<subseteq> Collect snake_char"
proof -
  show "norun (\<lambda>c. \<not> is_alnum c) (re_sub_run (\<lambda>c. \<not> is_alnum c) ''_'' (lower s))"
    by (rule re_sub_run_norun) (rule underscore_not_alnum)
  have "set (re_sub_run (\<lambda>c. \<not> is_alnum c) ''_'' (lower s))
          \<subseteq> insert (CHR ''_'') {c \<in> set (lower s). \<not> \<not> is_alnum c}"
    by (rule re_sub_run_set)
  moreover have "insert (CHR ''_'') {c \<in> set (lower s). \<not> \<not> is_alnum c} \<subseteq> Collect snake_char"
    using lower_no_upper[of _ s] by (auto simp: snake_char_def is_alnum_def)
  ultimately show "set (re_sub_run (\<lambda>c. \<not> is_alnum c) ''_'' (lower s)) \<subseteq> Collect snake_char"
    by (rule subset_trans)
qed

lemma step2_ident:
  "norun (\<lambda>c. \<not> is_alnum c) s \<Longrightarrow> re_sub_run (\<lambda>c. c = CHR ''_'') ''_'' s = s"
proof -
  assume "norun (\<lambda>c. \<not> is_alnum c) s"
  then have "norun (\<lambda>c. c = CHR ''_'') s"
    by (rule norun_mono[rotated]) (simp add: underscore_not_alnum)
  then show ?thesis by (rule re_sub_run_ident) simp
qed

lemma to_snake_case_eq:
  "to_snake_case s = strip (\<lambda>c. c = CHR ''_'') (re_sub_run (\<lambda>c. \<not> is_alnum c) ''_'' (lower s))"
  by (simp add: to_snake_case_def Let_def step2_ident step1_props(1))

lemma to_snake_case_chars: "set (to_snake_case s) \<subseteq> Collect snake_char"
  unfolding to_snake_case_eq using strip_set step1_props(2) by (rule subset_trans)

lemma to_snake_case_norun: "norun (\<lambda>c. \<not> is_alnum c) (to_snake_case s)"
  unfolding to_snake_case_eq by (rule norun_strip) (rule step1_props(1))

lemma to_snake_case_ends:
  "to_snake_case s = [] \<or> (hd (to_snake_case s) \<noteq> CHR ''_'' \<and> last (to_snake_case s) \<noteq> CHR ''_'')"
  unfolding to_snake_case_eq using strip_hd strip_last by blast

lemma to_snake_case_fixed:
  assumes "set t \<subseteq> Collect snake_char" "norun (\<lambda>c. \<not> is_alnum c) t"
    "t = [] \<or> (hd t \<noteq> CHR ''_'' \<and> last t \<noteq> CHR ''_'')"
  shows "to_snake_case t = t"
proof -
  have "lower t = t" using assms(1) by (intro lower_ident) (auto dest: snake_not_upper)
  moreover have "re_sub_run (\<lambda>c. \<not> is_alnum c) ''_'' t = t"
    using assms(1,2) by (intro re_sub_run_ident) (auto dest: snake_nonalnum)
  moreover have "strip (\<lambda>c. c = CHR ''_'') t = t"
    using assms(3) by (intro strip_ident) simp
  ultimately show ?thesis by (simp add: to_snake_case_eq)
qed

lemma norun_no_double: "norun (\<lambda>c. c = CHR ''_'') t \<Longrightarrow> \<not> sublist ''__'' t"
  by (auto simp: sublist_def norun_append_iff)

text \<open>
  Claim C5. \<^verbatim>\<open>to_snake_case\<close> (the spec's \<open>normalize\<close>) is idempotent; its result
  holds only lowercase letters, digits and the separator \<^verbatim>\<open>_\<close>; no two separators are
  adjacent; the result neither starts nor ends with a separator. The function is total:
  every operation in its body is defined on every string, and the model returns a
  string, not an optional one, for every input.
\<close>

theorem to_snake_case_idempotent_clean:
  "to_snake_case (to_snake_case s) = to_snake_case s
   \<and> set (to_snake_case s) \<subseteq> {c. is_lower c \<or> is_digit c \<or> c = CHR ''_''}
   \<and> \<not> sublist ''__'' (to_snake_case s)
   \<and> \<not> prefix ''_'' (to_snake_case s)
   \<and> \<not> suffix ''_'' (to_snake_case s)"
proof -
  let ?t = "to_snake_case s"
  have 1: "to_snake_case ?t = ?t"
    by (rule to_snake_case_fixed[OF to_snake_case_chars to_snake_case_norun to_snake_case_ends])
  have 2: "set ?t \<subseteq> {c. is_lower c \<or> is_digit c \<or> c = CHR ''_''}"
    using to_snake_case_chars[of s] by (auto simp: snake_char_def)
  have "norun (\<lambda>c. c = CHR ''_'') ?t"
    using to_snake_case_norun[of s] by (rule norun_mono[rotated]) (simp add: underscore_not_alnum)
  then have 3: "\<not> sublist ''__'' ?t" by (rule norun_no_double)
  have 4: "\<not> prefix ''_'' ?t" using to_snake_case_ends[of s] by (auto simp: prefix_def)
  have 5: "\<not> suffix ''_'' ?t" using to_snake_case_ends[of s] by (auto simp: suffix_def)
  from 1 2 3 4 5 show ?thesis by blast
qed

subsection \<open>Dates\<close>

text \<open>
  The ISO form of a date parses back to the date: a watermark the run stores is read as
  the same date by the next run.
\<close>

lemma char_eq_nat: "(c = d) = ((of_char c :: nat) = of_char d)"
  by simp

lemma digit_char_digit: "is_digit (digit_char n)"
  by (simp add: digit_char_def is_digit_def)

lemma digit_val_digit_char: "digit_val (digit_char n) = n mod 10"
  by (simp add: digit_char_def digit_val_def)

lemma four_digits:
  assumes "y \<le> 9999"
  shows "1000 * (y div 1000 mod 10) + 100 * (y div 100 mod 10) + 10 * (y div 10 mod 10) + y mod 10 = (y::nat)"
proof -
  define a b c r0 r1 r2 where "a = y div 10" and "b = a div 10" and "c = b div 10"
    and "r0 = y mod 10" and "r1 = a mod 10" and "r2 = b mod 10"
  have y: "y = 10 * a + r0" and a: "a = 10 * b + r1" and b: "b = 10 * c + r2"
    by (simp_all add: a_def b_def c_def r0_def r1_def r2_def)
  have "y div 100 = b" and "y div 1000 = c"
    by (simp_all add: a_def b_def c_def div_mult2_eq)
  moreover from assms have "c < 10" by (simp add: a_def b_def c_def div_mult2_eq)
  ultimately have "1000 * (y div 1000 mod 10) + 100 * (y div 100 mod 10) + 10 * (y div 10 mod 10) + y mod 10
      = 1000 * c + 100 * r2 + 10 * r1 + r0"
    by (simp add: a_def r0_def r1_def r2_def)
  also have "\<dots> = y" using y a b by arith
  finally show ?thesis .
qed

lemma re_Y_isoformat:
  "y \<le> 9999 \<Longrightarrow>
     re_Y (digit_char (y div 1000) # digit_char (y div 100) # digit_char (y div 10) # digit_char y # rest)
       = [(y, rest)]"
  using four_digits[of y] by (simp add: digit_char_digit digit_val_digit_char)

lemma re_m_isoformat:
  assumes "1 \<le> m" "m \<le> 12"
  shows "[x. (m', r3) \<leftarrow> re_m (digit_char (m div 10) # digit_char m # CHR ''-'' # rest),
             r4 \<leftarrow> re_lit (CHR ''-'') r3, x \<leftarrow> f m' r4] = f m rest"
proof -
  from assms have "m < 10 \<or> m = 10 \<or> m = 11 \<or> m = 12" by arith
  then show ?thesis
  proof (elim disjE)
    assume "m < 10"
    with assms show ?thesis
      by (simp add: re_m_def digit_char_def digit_val_def in_range_def char_eq_nat)
  qed (simp_all add: re_m_def digit_char_def digit_val_def in_range_def char_eq_nat)
qed


lemma re_d_isoformat:
  assumes "1 \<le> d" "d \<le> 31"
  shows "\<exists>tl. re_d [digit_char (d div 10), digit_char d] = (d, []) # tl"
proof -
  from assms have "d < 10 \<or> (10 \<le> d \<and> d < 20) \<or> (20 \<le> d \<and> d < 30) \<or> d = 30 \<or> d = 31" by arith
  then show ?thesis
  proof (elim disjE)
    assume "d < 10"
    with assms show ?thesis
      by (simp add: re_d_def digit_char_def digit_val_def in_range_def is_digit_def char_eq_nat)
  next
    assume "10 \<le> d \<and> d < 20"
    then obtain r where r: "d = 10 + r" "r < 10" by (auto simp: le_iff_add)
    then have "(10 + r) div 10 = 1" and "(10 + r) mod 10 = r" by arith+
    with r show ?thesis
      by (simp add: re_d_def digit_char_def digit_val_def in_range_def is_digit_def char_eq_nat)
  next
    assume "20 \<le> d \<and> d < 30"
    then obtain r where r: "d = 20 + r" "r < 10" by (auto simp: le_iff_add)
    then have "(20 + r) div 10 = 2" and "(20 + r) mod 10 = r" by arith+
    with r show ?thesis
      by (simp add: re_d_def digit_char_def digit_val_def in_range_def is_digit_def char_eq_nat)
  qed (simp_all add: re_d_def digit_char_def digit_val_def in_range_def is_digit_def char_eq_nat)
qed


lemma days_in_month_le: "days_in_month y m \<le> 31"
  by (simp add: days_in_month_def)

lemma strptime_isoformat:
  assumes "valid_date (year dt) (month dt) (day dt)"
  shows "strptime (isoformat dt) = Some dt"
proof -
  from assms have y: "year dt \<le> 9999" and m: "1 \<le> month dt" "month dt \<le> 12"
    and d: "1 \<le> day dt" "day dt \<le> 31"
    using days_in_month_le[of "year dt" "month dt"] by (auto simp: valid_date_def)
  from re_d_isoformat[OF d] obtain tl
    where tl: "re_d [digit_char (day dt div 10), digit_char (day dt)] = (day dt, []) # tl" by blast
  have "strptime_match (isoformat dt)
      = [(y, m, d, r5).
          (y, r1) \<leftarrow> [(year dt, CHR ''-'' # digit_char (month dt div 10) # digit_char (month dt)
                       # CHR ''-'' # [digit_char (day dt div 10), digit_char (day dt)])],
          r2 \<leftarrow> re_lit (CHR ''-'') r1,
          (m, r3) \<leftarrow> re_m r2, r4 \<leftarrow> re_lit (CHR ''-'') r3,
          (d, r5) \<leftarrow> re_d r4]"
    unfolding strptime_match_def isoformat_def using re_Y_isoformat[OF y]
    by (simp del: re_Y.simps)
  also have "\<dots> = [(year dt, month dt, d, r5). (d, r5) \<leftarrow> re_d [digit_char (day dt div 10), digit_char (day dt)]]"
    using re_m_isoformat[OF m, where rest = "[digit_char (day dt div 10), digit_char (day dt)]"
        and f = "\<lambda>m r4. [(year dt, m, d, r5). (d, r5) \<leftarrow> re_d r4]"]
    by simp
  finally have "strptime_match (isoformat dt)
      = (year dt, month dt, day dt, []) # map (\<lambda>(d, r). (year dt, month dt, d, r)) tl"
    by (simp add: tl)
  with assms show ?thesis by (simp add: strptime_def)
qed

lemma strptime_valid: "strptime s = Some dt \<Longrightarrow> valid_date (year dt) (month dt) (day dt)"
  by (auto simp: strptime_def split: list.splits if_splits)

lemma strptime_roundtrip: "strptime s = Some dt \<Longrightarrow> strptime (isoformat dt) = Some dt"
  by (rule strptime_isoformat) (rule strptime_valid)

subsection \<open>The change selector\<close>

text \<open>
  What a selected task says about its descriptor (\<open>select_one_SomeD\<close>), and the loop as
  the concatenation of what every descriptor contributes (\<open>select_loop_tasks\<close>,
  \<open>select_loop_complete\<close>).
\<close>

lemma date_le_less: "(\<not> date_le a b) = date_less b a"
  by (auto simp: date_le_def date_less_def)

lemma strptime_empty: "strptime [] = None"
  by (simp add: strptime_def strptime_match_def)

lemma find_csv_Some: "find_csv dists = Inr (Some url) \<Longrightarrow> list_ex (\<lambda>d. mediaType d = Some ''text/csv'') dists"
  by (induction dists) (auto split: if_splits option.splits)

lemma emit_SomeD:
  "emit ds ident d ttl = Inr (Some t) \<Longrightarrow>
     has_csv ds \<and> (\<exists>url. find_csv (distribution ds) = Inr (Some url) \<and> t = (url, ident, d, ttl))"
  by (auto simp: emit_def has_csv_def split: sum.splits option.splits dest: find_csv_Some)

lemma select_one_SomeD:
  assumes "select_one env metadata ds = Inr (Some t)"
  shows "\<exists>url ident s d.
           t = (url, ident, d, case title ds of None \<Rightarrow> ''untitled'' | Some x \<Rightarrow> x)
         \<and> list_ex (str_in ''Hospitals'') (theme ds)
         \<and> identifier ds = Some ident
         \<and> modified ds = Some s \<and> s \<noteq> [] \<and> strptime s = Some d
         \<and> find_csv (distribution ds) = Inr (Some url) \<and> has_csv ds
         \<and> (map_of metadata ident = None \<or> map_of metadata ident = Some []
              \<or> (\<exists>w wd. map_of metadata ident = Some w \<and> strptime w = Some wd \<and> date_less wd d))"
proof -
  from assms have th: "list_ex (str_in ''Hospitals'') (theme ds)"
    by (auto simp: select_one_def split: if_splits)
  from assms th obtain ident where id: "identifier ds = Some ident"
    by (auto simp: select_one_def split: option.splits)
  from assms th id obtain s where s: "modified ds = Some s" "s \<noteq> []"
    by (auto simp: select_one_def skip_invalid_date_def Let_def truthy_def
        split: option.splits if_splits)
  from assms th id s obtain d where d: "strptime s = Some d"
    by (auto simp: select_one_def skip_invalid_date_def Let_def truthy_def
        split: option.splits if_splits)
  let ?ttl = "case title ds of None \<Rightarrow> ''untitled'' | Some x \<Rightarrow> x"
  have sel: "select_one env metadata ds =
      (if truthy (map_of metadata ident) then
         (case strptime (the (map_of metadata ident)) of
            None \<Rightarrow> skip_invalid_date env s
          | Some wd \<Rightarrow> if date_le d wd then Inr None else emit ds ident d ?ttl)
       else emit ds ident d ?ttl)"
    using th id s d by (simp add: select_one_def Let_def truthy_def cong: option.case_cong)
  with assms have em: "emit ds ident d ?ttl = Inr (Some t)"
    by (auto simp: skip_invalid_date_def split: if_splits option.splits)
  from sel assms have wm: "map_of metadata ident = None \<or> map_of metadata ident = Some []
      \<or> (\<exists>w wd. map_of metadata ident = Some w \<and> strptime w = Some wd \<and> date_less wd d)"
    by (cases "map_of metadata ident")
       (auto simp: truthy_def date_le_less skip_invalid_date_def split: if_splits option.splits)
  from emit_SomeD[OF em] th id s d wm show ?thesis by blast
qed

lemma emitted_None: "select_one env metadata ds = Inr None \<Longrightarrow> emitted env metadata ds = []"
  by (simp add: emitted_def)

lemma emitted_Some: "select_one env metadata ds = Inr (Some t) \<Longrightarrow> emitted env metadata ds = [t]"
  by (simp add: emitted_def)

lemma select_loop_tasks:
  "select_loop env metadata datasets acc = Inr tasks \<Longrightarrow>
     tasks = acc @ concat (map (emitted env metadata) datasets)
     \<and> (\<forall>ds\<in>set datasets. \<exists>r. select_one env metadata ds = Inr r)"
proof (induction datasets arbitrary: acc)
  case Nil
  then show ?case by simp
next
  case (Cons ds datasets)
  show ?case
  proof (cases "select_one env metadata ds")
    case (Inl e)
    with Cons.prems show ?thesis by simp
  next
    case (Inr r)
    show ?thesis
    proof (cases r)
      case None
      with Inr Cons.prems have "select_loop env metadata datasets acc = Inr tasks" by simp
      from Cons.IH[OF this] Inr None show ?thesis by (simp add: emitted_None)
    next
      case (Some t)
      with Inr Cons.prems have "select_loop env metadata datasets (acc @ [t]) = Inr tasks" by simp
      from Cons.IH[OF this] Inr Some show ?thesis by (simp add: emitted_Some)
    qed
  qed
qed

lemma select_loop_complete:
  "\<forall>ds\<in>set datasets. \<exists>r. select_one env metadata ds = Inr r \<Longrightarrow>
     select_loop env metadata datasets acc = Inr (acc @ concat (map (emitted env metadata) datasets))"
proof (induction datasets arbitrary: acc)
  case Nil
  then show ?case by simp
next
  case (Cons ds datasets)
  then obtain r where r: "select_one env metadata ds = Inr r" by auto
  from Cons have ih: "\<And>acc. select_loop env metadata datasets acc
      = Inr (acc @ concat (map (emitted env metadata) datasets))" by simp
  show ?case using r ih by (cases r) (simp_all add: emitted_None emitted_Some)
qed

lemma select_loop_member:
  assumes "select_loop env metadata datasets [] = Inr tasks" "t \<in> set tasks"
  shows "\<exists>ds\<in>set datasets. select_one env metadata ds = Inr (Some t)"
proof -
  from select_loop_tasks[OF assms(1)] assms(2)
  obtain ds where ds: "ds \<in> set datasets" "t \<in> set (emitted env metadata ds)" by auto
  then have "select_one env metadata ds = Inr (Some t)"
    by (auto simp: emitted_def split: sum.splits option.splits)
  with ds show ?thesis by blast
qed

lemma select_one_stored:
  assumes "identifier ds = Some ident" "select_one env metadata ds = Inr (Some t)"
  shows "\<exists>url s d. t = (url, ident, d, case title ds of None \<Rightarrow> ''untitled'' | Some x \<Rightarrow> x)
           \<and> modified ds = Some s \<and> strptime s = Some d
           \<and> (map_of metadata ident = None \<or> map_of metadata ident = Some []
                \<or> (\<exists>w wd. map_of metadata ident = Some w \<and> strptime w = Some wd \<and> date_less wd d))"
  using select_one_SomeD[OF assms(2)] assms(1) by auto

lemma emitted_memD: "t \<in> set (emitted env metadata ds) \<Longrightarrow> select_one env metadata ds = Inr (Some t)"
  by (auto simp: emitted_def split: sum.splits option.splits)

lemma emitted_empty_iff: "(emitted env metadata ds = []) = (\<forall>t. select_one env metadata ds \<noteq> Inr (Some t))"
  by (auto simp: emitted_def split: sum.splits option.splits)

lemma date_less_not_le: "date_less wd d \<Longrightarrow> \<not> date_le d wd"
  by (simp add: date_le_less)

text \<open>
  Claim C3. Let the checkpoint hold a watermark for the identifier of a descriptor, that
  is a non-empty string \<open>w\<close>. If the selector emits a task for the descriptor, then the
  descriptor's modified date and \<open>w\<close> both parse and the modified date is strictly
  greater than the stored one; if the modified date parses to a date less than or equal
  to the stored one, no task is emitted; and every task of a run for that identifier
  carries a date strictly greater than the stored one.
\<close>

theorem selector_requires_strictly_newer:
  assumes "identifier ds = Some ident"
    and "map_of metadata ident = Some w"
    and "w \<noteq> []"
  shows "(\<forall>t. select_one env metadata ds = Inr (Some t) \<longrightarrow>
            (\<exists>s d wd. modified ds = Some s \<and> strptime s = Some d
               \<and> strptime w = Some wd \<and> date_less wd d))
       \<and> (\<forall>s d wd. modified ds = Some s \<and> strptime s = Some d
               \<and> strptime w = Some wd \<and> date_le d wd \<longrightarrow>
            emitted env metadata ds = [])
       \<and> (\<forall>datasets tasks url d ttl.
            select_loop env metadata datasets [] = Inr tasks \<and> (url, ident, d, ttl) \<in> set tasks \<longrightarrow>
              (\<exists>wd. strptime w = Some wd \<and> date_less wd d))"
proof -
  have a: "\<exists>s d wd. modified ds = Some s \<and> strptime s = Some d
             \<and> strptime w = Some wd \<and> date_less wd d"
    if "select_one env metadata ds = Inr (Some t)" for t
    using select_one_stored[OF assms(1) that] assms(2,3) by auto
  have b: "emitted env metadata ds = []"
    if "modified ds = Some s \<and> strptime s = Some d \<and> strptime w = Some wd \<and> date_le d wd"
    for s d wd
  proof (rule ccontr)
    assume "emitted env metadata ds \<noteq> []"
    then obtain t where "select_one env metadata ds = Inr (Some t)"
      by (auto simp: emitted_empty_iff)
    from a[OF this] that show False by (auto dest: date_less_not_le)
  qed
  have c: "\<exists>wd. strptime w = Some wd \<and> date_less wd d"
    if "select_loop env metadata datasets [] = Inr tasks \<and> (url, ident, d, ttl) \<in> set tasks"
    for datasets tasks url d ttl
  proof -
    from that select_loop_member obtain ds'
      where "select_one env metadata ds' = Inr (Some (url, ident, d, ttl))" by blast
    from select_one_SomeD[OF this] assms(2,3) show ?thesis by auto
  qed
  from a b c show ?thesis by blast
qed

text \<open>The dataset \<open>A\<close> against the checkpoint that holds its own date: equal dates, no task.\<close>

theorem selector_requires_strictly_newer_witness:
  "identifier dataset_A = Some ''A''
   \<and> map_of [(''A'', ''2024-03-01'')] ''A'' = Some ''2024-03-01''
   \<and> ''2024-03-01'' \<noteq> []
   \<and> strptime ''2024-03-01'' = Some (Date 2024 3 1)
   \<and> modified dataset_A = Some ''2024-03-01''
   \<and> date_le (Date 2024 3 1) (Date 2024 3 1)
   \<and> emitted offline_world [(''A'', ''2024-03-01'')] dataset_A = []"
proof -
  have 1: "identifier dataset_A = Some ''A''" by (simp add: dataset_A_def)
  have 2: "map_of [(''A'', ''2024-03-01'')] ''A'' = Some ''2024-03-01''" by simp
  have 3: "strptime ''2024-03-01'' = Some (Date 2024 3 1)" by code_simp
  have 4: "modified dataset_A = Some ''2024-03-01''" by (simp add: dataset_A_def)
  have 5: "date_le (Date 2024 3 1) (Date 2024 3 1)" by (simp add: date_le_def)
  have 6: "''2024-03-01'' \<noteq> []" by simp
  from selector_requires_strictly_newer[OF 1 2 6, where env = offline_world] 3 4 5
  have "emitted offline_world [(''A'', ''2024-03-01'')] dataset_A = []" by blast
  with 1 2 3 4 5 6 show ?thesis by blast
qed

lemma concat_emitted_removeAll:
  "emitted env metadata ds = [] \<Longrightarrow>
     concat (map (emitted env metadata) (removeAll ds datasets)) = concat (map (emitted env metadata) datasets)"
  by (induction datasets) auto

text \<open>
  Claim C4. A descriptor whose \<^verbatim>\<open>modified\<close> field is absent, or does not parse as a date,
  or that has no distribution of media type \<^verbatim>\<open>text/csv\<close>, contributes no task: the
  loop body does not append one, and a run over a catalog selects the same tasks as the
  run over the catalog without that descriptor.
\<close>

theorem selector_skips_ineligible:
  assumes "modified ds = None \<or> (\<exists>s. modified ds = Some s \<and> strptime s = None) \<or> \<not> has_csv ds"
  shows "emitted env metadata ds = []
       \<and> (\<forall>t. select_one env metadata ds \<noteq> Inr (Some t))
       \<and> (\<forall>datasets tasks. select_loop env metadata datasets [] = Inr tasks \<longrightarrow>
            select_loop env metadata (removeAll ds datasets) [] = Inr tasks)"
proof -
  have a: "select_one env metadata ds \<noteq> Inr (Some t)" for t
  proof
    assume "select_one env metadata ds = Inr (Some t)"
    from select_one_SomeD[OF this] assms show False by auto
  qed
  then have b: "emitted env metadata ds = []" by (simp add: emitted_empty_iff)
  have c: "select_loop env metadata (removeAll ds datasets) [] = Inr tasks"
    if "select_loop env metadata datasets [] = Inr tasks" for datasets tasks
  proof -
    from select_loop_tasks[OF that]
    have t: "tasks = concat (map (emitted env metadata) datasets)"
      and ok: "\<forall>x\<in>set datasets. \<exists>r. select_one env metadata x = Inr r" by auto
    from ok have "\<forall>x\<in>set (removeAll ds datasets). \<exists>r. select_one env metadata x = Inr r" by auto
    from select_loop_complete[OF this, where acc = "[]"] t concat_emitted_removeAll[OF b]
    show ?thesis by simp
  qed
  from a b c show ?thesis by blast
qed

text \<open>One descriptor for each of the three conditions, and a catalog of two descriptors.\<close>

theorem selector_skips_ineligible_witness:
  "modified (dataset_A\<lparr>modified := None\<rparr>) = None
   \<and> strptime ''03/01/2024'' = None
   \<and> \<not> has_csv (dataset_A\<lparr>distribution := []\<rparr>)
   \<and> emitted offline_world [] (dataset_A\<lparr>modified := None\<rparr>) = []
   \<and> emitted offline_world [] (dataset_A\<lparr>modified := Some ''03/01/2024''\<rparr>) = []
   \<and> emitted offline_world [] (dataset_A\<lparr>distribution := []\<rparr>) = []
   \<and> select_loop offline_world [] [dataset_A, dataset_A\<lparr>modified := None\<rparr>] [] = Inr [task_A]
   \<and> select_loop offline_world [] (removeAll (dataset_A\<lparr>modified := None\<rparr>) [dataset_A, dataset_A\<lparr>modified := None\<rparr>]) []
        = Inr [task_A]"
proof -
  have 1: "modified (dataset_A\<lparr>modified := None\<rparr>) = None" by simp
  have 2: "strptime ''03/01/2024'' = None" by code_simp
  then have e2: "\<exists>s. modified (dataset_A\<lparr>modified := Some ''03/01/2024''\<rparr>) = Some s \<and> strptime s = None"
    by simp
  have 3: "\<not> has_csv (dataset_A\<lparr>distribution := []\<rparr>)" by (simp add: has_csv_def)
  have 4: "select_loop offline_world [] [dataset_A, dataset_A\<lparr>modified := None\<rparr>] [] = Inr [task_A]"
    by code_simp
  from selector_skips_ineligible[where ds = "dataset_A\<lparr>modified := None\<rparr>" and metadata = "[]"
      and env = offline_world] 1 4
  have 5: "emitted offline_world [] (dataset_A\<lparr>modified := None\<rparr>) = []"
    and 6: "select_loop offline_world [] (removeAll (dataset_A\<lparr>modified := None\<rparr>)
              [dataset_A, dataset_A\<lparr>modified := None\<rparr>]) [] = Inr [task_A]" by blast+
  from selector_skips_ineligible[where ds = "dataset_A\<lparr>modified := Some ''03/01/2024''\<rparr>"
      and metadata = "[]" and env = offline_world] e2
  have 7: "emitted offline_world [] (dataset_A\<lparr>modified := Some ''03/01/2024''\<rparr>) = []" by blast
  from selector_skips_ineligible[where ds = "dataset_A\<lparr>distribution := []\<rparr>" and metadata = "[]"
      and env = offline_world] 3
  have 8: "emitted offline_world [] (dataset_A\<lparr>distribution := []\<rparr>) = []" by blast
  from 1 2 3 4 5 6 7 8 show ?thesis by blast
qed

text \<open>
  Claim C10 as stated fails for the empty string: it does not parse as a date, yet the
  test \<^verbatim>\<open>if last_modified_str:\<close> treats it as no watermark at all, and the task is
  emitted.
\<close>

theorem empty_stored_watermark_counterexample:
  "identifier dataset_A = Some ''A''
   \<and> modified dataset_A = Some ''2024-03-01''
   \<and> strptime ''2024-03-01'' = Some (Date 2024 3 1)
   \<and> map_of [(''A'', [])] ''A'' = Some []
   \<and> strptime [] = None
   \<and> select_one offline_world [(''A'', [])] dataset_A = Inr (Some task_A)"
proof -
  have 1: "identifier dataset_A = Some ''A''" by (simp add: dataset_A_def)
  have 2: "modified dataset_A = Some ''2024-03-01''" by (simp add: dataset_A_def)
  have 3: "strptime ''2024-03-01'' = Some (Date 2024 3 1)" by code_simp
  have 4: "map_of [(''A'', [])] ''A'' = Some []" by simp
  have 5: "select_one offline_world [(''A'', [])] dataset_A = Inr (Some task_A)" by code_simp
  from 1 2 3 4 5 strptime_empty show ?thesis by blast
qed

text \<open>
  Claim C10, amended. If the checkpoint holds, for the identifier of a descriptor, a
  string that does not parse as a date, then: when the string is not empty, no task is
  emitted for the descriptor and no task of a run carries that identifier; when the
  string is empty, the selector treats the descriptor as it does under the empty
  checkpoint.
\<close>

theorem corrupt_stored_watermark_skips:
  assumes "identifier ds = Some ident"
    and "map_of metadata ident = Some w"
    and "strptime w = None"
  shows "(w \<noteq> [] \<longrightarrow>
            emitted env metadata ds = []
          \<and> (\<forall>datasets tasks. select_loop env metadata datasets [] = Inr tasks \<longrightarrow>
                ident \<notin> task_identifier ` set tasks))
       \<and> (w = [] \<longrightarrow> select_one env metadata ds = select_one env [] ds)"
proof -
  have a: "emitted env metadata ds = []" if "w \<noteq> []"
  proof (rule ccontr)
    assume "emitted env metadata ds \<noteq> []"
    then obtain t where "select_one env metadata ds = Inr (Some t)"
      by (auto simp: emitted_empty_iff)
    from select_one_stored[OF assms(1) this] assms(2,3) that show False by auto
  qed
  have b: "ident \<notin> task_identifier ` set tasks"
    if "w \<noteq> []" "select_loop env metadata datasets [] = Inr tasks" for datasets tasks
  proof
    assume "ident \<in> task_identifier ` set tasks"
    then obtain url d ttl where "(url, ident, d, ttl) \<in> set tasks"
      by (auto simp: task_identifier_def)
    with that(2) select_loop_member obtain ds'
      where "select_one env metadata ds' = Inr (Some (url, ident, d, ttl))" by blast
    from select_one_SomeD[OF this] assms(2,3) that(1) show False by auto
  qed
  have c: "select_one env metadata ds = select_one env [] ds" if "w = []"
    using assms(1,2) that by (simp add: select_one_def Let_def truthy_def split: option.splits)
  from a b c show ?thesis by blast
qed

text \<open>The dataset \<open>A\<close> against a corrupt and against an empty stored watermark.\<close>

theorem corrupt_stored_watermark_skips_witness:
  "identifier dataset_A = Some ''A''
   \<and> map_of [(''A'', ''March 1st'')] ''A'' = Some ''March 1st''
   \<and> strptime ''March 1st'' = None
   \<and> emitted offline_world [(''A'', ''March 1st'')] dataset_A = []
   \<and> map_of [(''A'', [])] ''A'' = Some []
   \<and> select_one offline_world [(''A'', [])] dataset_A = select_one offline_world [] dataset_A"
proof -
  have 1: "identifier dataset_A = Some ''A''" by (simp add: dataset_A_def)
  have 2: "map_of [(''A'', ''March 1st'')] ''A'' = Some ''March 1st''" by simp
  have 3: "strptime ''March 1st'' = None" by code_simp
  have 4: "map_of [(''A'', [])] ''A'' = Some []" by simp
  from corrupt_stored_watermark_skips[OF 1 2 3, where env = offline_world]
  have 5: "emitted offline_world [(''A'', ''March 1st'')] dataset_A = []" by simp
  from corrupt_stored_watermark_skips[OF 1 4 strptime_empty, where env = offline_world]
  have 6: "select_one offline_world [(''A'', [])] dataset_A = select_one offline_world [] dataset_A" by simp
  from 1 2 3 4 5 6 show ?thesis by blast
qed

subsection \<open>Output paths\<close>

lemma snake_char_not_dash: "snake_char c \<Longrightarrow> c \<noteq> CHR ''-'' \<and> c \<noteq> CHR ''/''"
  by (auto simp: snake_char_def is_lower_def is_digit_def)

lemma to_snake_case_no_dash: "CHR ''-'' \<notin> set (to_snake_case t)"
  using to_snake_case_chars[of t] snake_char_not_dash by auto

lemma output_name_not_absolute: "\<not> prefix ''/'' (to_snake_case t @ ''-'' @ rest)"
proof (cases "to_snake_case t")
  case Nil
  then show ?thesis by simp
next
  case (Cons c cs)
  then have "c \<in> set (to_snake_case t)" by simp
  with to_snake_case_chars[of t] have "snake_char c" by auto
  with Cons show ?thesis by (auto dest: snake_char_not_dash)
qed

lemma output_path_eq:
  "output_path ttl ident = ''processed_csv/'' @ to_snake_case ttl @ ''-'' @ ident @ ''.csv''"
proof -
  have "\<not> prefix ''/'' (to_snake_case ttl @ ''-'' @ ident @ ''.csv'')"
    by (rule output_name_not_absolute)
  then show ?thesis
    by (simp add: output_path_def path_join_def OUTPUT_DIR_def Let_def suffix_def)
qed

lemma split_at_first:
  "c \<notin> set xs \<Longrightarrow> c \<notin> set xs' \<Longrightarrow> xs @ c # ys = xs' @ c # ys' \<Longrightarrow> xs = xs' \<and> ys = ys'"
proof (induction xs arbitrary: xs')
  case Nil
  then show ?case by (cases xs') auto
next
  case (Cons a xs)
  then show ?case by (cases xs') auto
qed

text \<open>
  Claim C7. The output path, as a string, depends on the title only through
  \<^verbatim>\<open>to_snake_case(title)\<close>: equal normalised titles and equal identifiers give equal
  paths. Different identifiers give different paths, whatever the titles: the
  normalised title holds no \<^verbatim>\<open>-\<close>, so the first \<^verbatim>\<open>-\<close> of the file name ends it.
\<close>

theorem output_path_deterministic_injective:
  "(to_snake_case t1 = to_snake_case t2 \<and> i1 = i2 \<longrightarrow> output_path t1 i1 = output_path t2 i2)
   \<and> (i1 \<noteq> i2 \<longrightarrow> output_path t1 i1 \<noteq> output_path t2 i2)"
proof -
  have a: "output_path t1 i1 = output_path t2 i2"
    if "to_snake_case t1 = to_snake_case t2 \<and> i1 = i2"
    using that by (simp add: output_path_eq)
  have b: "i1 = i2" if eq: "output_path t1 i1 = output_path t2 i2"
  proof -
    from eq have "to_snake_case t1 @ CHR ''-'' # (i1 @ ''.csv'')
        = to_snake_case t2 @ CHR ''-'' # (i2 @ ''.csv'')"
      by (simp add: output_path_eq)
    from split_at_first[OF to_snake_case_no_dash to_snake_case_no_dash this]
    show ?thesis by simp
  qed
  from a b show ?thesis by blast
qed

text \<open>Two titles with the same normal form, with the same and with different identifiers.\<close>

theorem output_path_deterministic_injective_witness:
  "to_snake_case ''Hospital Info'' = to_snake_case ''hospital_info''
   \<and> output_path ''Hospital Info'' ''a-1'' = output_path ''hospital_info'' ''a-1''
   \<and> ''a-1'' \<noteq> ''a-2''
   \<and> output_path ''Hospital Info'' ''a-1'' \<noteq> output_path ''hospital_info'' ''a-2''"
proof -
  have 1: "to_snake_case ''Hospital Info'' = to_snake_case ''hospital_info''" by code_simp
  have 2: "''a-1'' \<noteq> ''a-2''" by simp
  from output_path_deterministic_injective[of "''Hospital Info''" "''hospital_info''" "''a-1''" "''a-1''"] 1
  have 3: "output_path ''Hospital Info'' ''a-1'' = output_path ''hospital_info'' ''a-1''" by blast
  from output_path_deterministic_injective[of "''Hospital Info''" "''hospital_info''" "''a-1''" "''a-2''"] 2
  have 4: "output_path ''Hospital Info'' ''a-1'' \<noteq> output_path ''hospital_info'' ''a-2''" by blast
  from 1 2 3 4 show ?thesis by blast
qed

subsection \<open>Saving and loading the checkpoint\<close>

text \<open>
  The file system after a save, whole or interrupted; the lexer reads a chunk of the
  encoder as the tokens paired with it (\<open>lex_parts\<close>), so that the whole encoding decodes
  to the dictionary (\<open>json_loads_iterencode\<close>) and no text that the encoding properly
  extends decodes (\<open>json_loads_strict_prefix\<close>).
\<close>

lemma fold_exec_writes:
  "fold exec (map (Write path) chunks) d
     = (if chunks = [] then d
        else d(path \<mapsto> (case d path of None \<Rightarrow> [] | Some old \<Rightarrow> old) @ concat chunks))"
proof (induction chunks arbitrary: d)
  case Nil
  then show ?case by simp
next
  case (Cons c chunks)
  then show ?case by (cases "chunks = []") auto
qed

lemma fold_exec_chars:
  "fold exec (map (\<lambda>c. Write path [c]) cs) (d(path \<mapsto> old)) = d(path \<mapsto> old @ cs)"
  by (induction cs arbitrary: old) simp_all

lemma save_metadata_interrupted_Suc:
  "save_metadata_interrupted (Suc n) metadata d
     = d(METADATA_FILE \<mapsto> take n (concat (iterencode metadata)))"
proof -
  have "save_metadata_interrupted (Suc n) metadata d
      = fold exec (map (\<lambda>c. Write METADATA_FILE [c]) (take n (concat (iterencode metadata))))
          (d(METADATA_FILE \<mapsto> []))"
    by (simp add: save_metadata_interrupted_def flush_ops_def take_map)
  then show ?thesis by (simp only: fold_exec_chars append_Nil)
qed

lemma save_metadata_eq:
  "save_metadata metadata d = d(METADATA_FILE \<mapsto> concat (iterencode metadata))"
proof -
  have "save_metadata metadata d
      = fold exec (map (Write METADATA_FILE) (iterencode metadata)) (d(METADATA_FILE \<mapsto> []))"
    by (simp add: save_metadata_def save_metadata_ops_def)
  then show ?thesis by (simp add: fold_exec_writes)
qed

lemma flush_ops_save: "fold exec (flush_ops metadata) d = save_metadata metadata d"
proof -
  have "fold exec (flush_ops metadata) d
      = fold exec (map (\<lambda>c. Write METADATA_FILE [c]) (concat (iterencode metadata)))
          (d(METADATA_FILE \<mapsto> []))"
    by (simp add: flush_ops_def)
  then show ?thesis by (simp only: fold_exec_chars append_Nil save_metadata_eq)
qed

lemma json_loads_empty: "json_loads [] = Inl JSONDecodeError"
  by (simp add: json_loads_def)

lemma hex_val_hex_digit: "k < 16 \<Longrightarrow> hex_val (hex_digit k) = Some k"
  by (auto simp: hex_val_def hex_digit_def is_digit_def in_range_def)

lemma hex_val_zero: "hex_val (CHR ''0'') = Some 0"
  by (simp add: hex_val_def is_digit_def)

lemma char_of_div_mod: "char_of (16 * ((of_char c :: nat) div 16) + of_char c mod 16) = c"
  by simp

lemma lex_escape_char: "lex (Some acc) (escape_char c @ t) = lex (Some (c # acc)) t"
proof -
  have lt: "(of_char c :: nat) div 16 < 16"
    using nat_of_char_less_256[of c] by arith
  consider "c = CHR 0x22" | "c = CHR 0x5C" | "c = CHR 0x0A" | "c = CHR 0x0D" | "c = CHR 0x09"
    | "c = CHR 0x08" | "c = CHR 0x0C"
    | "c \<notin> {CHR 0x22, CHR 0x5C, CHR 0x0A, CHR 0x0D, CHR 0x09, CHR 0x08, CHR 0x0C}"
      "in_range (CHR '' '') (CHR ''~'') c"
    | "c \<notin> {CHR 0x22, CHR 0x5C, CHR 0x0A, CHR 0x0D, CHR 0x09, CHR 0x08, CHR 0x0C}"
      "\<not> in_range (CHR '' '') (CHR ''~'') c"
    by blast
  then show ?thesis
  proof cases
    case 8
    then show ?thesis by (simp add: escape_char_def in_range_def)
  next
    case 9
    then show ?thesis
      by (simp add: escape_char_def hex_val_hex_digit hex_val_zero lt char_of_div_mod)
  qed (simp_all add: escape_char_def unescape_def)
qed

lemma lex_string:
  "lex (Some acc) (concat (map escape_char s) @ CHR 0x22 # rest)
     = cons_tok (Str (rev acc @ s)) (lex None rest)"
  by (induction s arbitrary: acc) (simp_all add: lex_escape_char)

lemma prepend_toks_Nil: "prepend_toks [] r = r"
  by (cases r) (simp_all add: prepend_toks_def)

lemma cons_tok_prepend: "cons_tok t r = prepend_toks [t] r"
  by (cases r) (simp_all add: prepend_toks_def cons_tok_def)

lemma prepend_toks_append: "prepend_toks ts (prepend_toks us r) = prepend_toks (ts @ us) r"
  by (cases r) (simp_all add: prepend_toks_def)

lemma lexes_to_string: "lexes_to (encode_basestring_ascii s, [Str s])"
  using lex_string[of "[]" s]
  by (simp add: lexes_to_def encode_basestring_ascii_def is_ws_def cons_tok_prepend)

lemma lexes_to_colon: "lexes_to ('': '', [Colon])"
  by (simp add: lexes_to_def is_ws_def cons_tok_prepend)

lemma lexes_to_indent: "lexes_to (newline_indent, [])"
  by (simp add: lexes_to_def is_ws_def newline_indent_def prepend_toks_Nil)

lemma lexes_to_comma: "lexes_to (CHR '','' # newline_indent, [Comma])"
  using lexes_to_indent by (simp add: lexes_to_def is_ws_def cons_tok_prepend prepend_toks_Nil)

lemma lexes_to_open: "lexes_to (''{'', [LBrace])"
  by (simp add: lexes_to_def is_ws_def cons_tok_prepend)

lemma lexes_to_close: "lexes_to (''}'', [RBrace])"
  by (simp add: lexes_to_def is_ws_def cons_tok_prepend)

lemma lexes_to_newline: "lexes_to ([CHR 0x0A], [])"
  by (simp add: lexes_to_def is_ws_def prepend_toks_Nil)

lemma item_parts_lexes: "\<forall>p\<in>set (item_parts first items). lexes_to p"
  by (induction first items rule: item_parts.induct)
     (auto simp: lexes_to_string lexes_to_colon lexes_to_comma)

lemma doc_parts_lexes: "\<forall>p\<in>set (doc_parts metadata). lexes_to p"
  using item_parts_lexes
  by (auto simp: doc_parts_def lexes_to_open lexes_to_close lexes_to_indent lexes_to_newline)

lemma item_chunks_parts: "item_chunks first items = map fst (item_parts first items)"
  by (induction first items rule: item_parts.induct) auto

lemma item_tokens_parts: "concat (map snd (item_parts first items)) = item_tokens first items"
  by (induction first items rule: item_parts.induct) auto

lemma iterencode_parts: "metadata \<noteq> [] \<Longrightarrow> iterencode metadata = map fst (doc_parts metadata)"
  by (simp add: iterencode_def doc_parts_def item_chunks_parts)

lemma lex_parts:
  "\<forall>p\<in>set ps. lexes_to p \<Longrightarrow>
     lex None (concat (map fst ps) @ rest) = prepend_toks (concat (map snd ps)) (lex None rest)"
proof (induction ps)
  case Nil
  then show ?case by (simp add: prepend_toks_Nil)
next
  case (Cons p ps)
  then have "lexes_to p" by simp
  then have "lex None (fst p @ concat (map fst ps) @ rest)
      = prepend_toks (snd p) (lex None (concat (map fst ps) @ rest))"
    unfolding lexes_to_def by blast
  with Cons show ?case by (simp add: prepend_toks_append)
qed

lemma lex_take_iterencode:
  assumes "metadata \<noteq> []"
  shows "lex None (concat (take j (iterencode metadata)))
           = Inr (concat (map snd (take j (doc_parts metadata))))"
proof -
  have "\<forall>p\<in>set (take j (doc_parts metadata)). lexes_to p"
    using doc_parts_lexes by (auto dest: in_set_takeD)
  from lex_parts[OF this, of "[]"] show ?thesis
    by (simp add: iterencode_parts[OF assms] take_map prepend_toks_def)
qed

lemma concat_take_prefix: "prefix (concat (map f (take j xs))) (concat (map f xs))"
proof -
  have "concat (map f xs) = concat (map f (take j xs @ drop j xs))" by simp
  also have "\<dots> = concat (map f (take j xs)) @ concat (map f (drop j xs))"
    by (simp only: map_append concat_append)
  finally show ?thesis by (simp add: prefix_def)
qed

lemma doc_tokens_take:
  assumes "j < length (doc_parts metadata)"
  shows "prefix (concat (map snd (take j (doc_parts metadata)))) (LBrace # item_tokens True metadata)"
proof -
  define init where
    "init = [(''{'', [LBrace]), (newline_indent, [])] @ item_parts True metadata @ [([CHR 0x0A], [])]"
  have d: "doc_parts metadata = init @ [(''}'', [RBrace])]"
    by (simp add: doc_parts_def init_def)
  with assms have "j \<le> length init" by simp
  then have "take j (init @ [(''}'', [RBrace])]) = take j init" by simp
  with d have t: "take j (doc_parts metadata) = take j init" by simp
  have "concat (map snd init) = LBrace # item_tokens True metadata"
    by (simp add: init_def item_tokens_parts)
  with concat_take_prefix[of snd j init] t show ?thesis by simp
qed

lemma item_tokens_False:
  "items \<noteq> [] \<Longrightarrow> item_tokens False items = Comma # item_tokens True items"
  by (cases items) auto

lemma parse_members_prefix:
  "prefix ts (item_tokens True items) \<Longrightarrow> parse_members ts = Inl JSONDecodeError"
proof (induction items arbitrary: ts)
  case Nil
  then show ?case by simp
next
  case (Cons kv items)
  obtain k v where kv: "kv = (k, v)" by (cases kv)
  from Cons.prems kv consider "ts = []" | "ts = [Str k]" | "ts = [Str k, Colon]"
    | ts3 where "ts = Str k # Colon # Str v # ts3" "prefix ts3 (item_tokens False items)"
    by (auto simp: prefix_Cons)
  then show ?case
  proof cases
    case 4
    show ?thesis
    proof (cases "items = []")
      case True
      with 4 show ?thesis by simp
    next
      case False
      from 4(2) item_tokens_False[OF False] consider "ts3 = []"
        | ts4 where "ts3 = Comma # ts4" "prefix ts4 (item_tokens True items)"
        by (auto simp: prefix_Cons)
      then show ?thesis
      proof cases
        case 1
        with 4 show ?thesis by simp
      next
        case 2
        from Cons.IH[OF 2(2)] 2(1) 4(1) show ?thesis by simp
      qed
    qed
  qed simp_all
qed

lemma parse_members_full:
  "items \<noteq> [] \<Longrightarrow> parse_members (item_tokens True items @ [RBrace]) = Inr items"
proof (induction items)
  case Nil
  then show ?case by simp
next
  case (Cons kv items)
  obtain k v where kv: "kv = (k, v)" by (cases kv)
  show ?case
  proof (cases "items = []")
    case True
    with kv show ?thesis by simp
  next
    case False
    from Cons.IH[OF False] item_tokens_False[OF False] kv show ?thesis by simp
  qed
qed


lemma update_new: "k \<notin> fst ` set al \<Longrightarrow> AList.update k v al = al @ [(k, v)]"
  by (induction al) auto

lemma foldl_update_distinct:
  "distinct (map fst (acc @ pairs)) \<Longrightarrow>
     foldl (\<lambda>m (k, v). AList.update k v m) acc pairs = acc @ pairs"
proof (induction pairs arbitrary: acc)
  case Nil
  then show ?case by simp
next
  case (Cons kv pairs)
  obtain k v where kv: "kv = (k, v)" by (cases kv)
  with Cons.prems have "k \<notin> fst ` set acc" by auto
  then have u: "AList.update k v acc = acc @ [(k, v)]" by (rule update_new)
  from Cons.prems kv have "distinct (map fst ((acc @ [(k, v)]) @ pairs))" by simp
  from Cons.IH[OF this] u kv show ?case by simp
qed

lemma dict_of_distinct: "distinct (map fst pairs) \<Longrightarrow> dict_of pairs = pairs"
  using foldl_update_distinct[of "[]" pairs] by (simp add: dict_of_def)

lemma json_loads_iterencode:
  assumes "distinct (map fst metadata)"
  shows "json_loads (concat (iterencode metadata)) = Inr metadata"
proof (cases "metadata = []")
  case True
  then show ?thesis
    by (simp add: iterencode_def json_loads_def is_ws_def cons_tok_def)
next
  case False
  then obtain k v items where m: "metadata = (k, v) # items" by (cases metadata) auto
  have "concat (take (length (iterencode metadata)) (iterencode metadata))
      = concat (iterencode metadata)" by simp
  with lex_take_iterencode[OF False, of "length (iterencode metadata)"]
  have "lex None (concat (iterencode metadata)) = Inr (concat (map snd (doc_parts metadata)))"
    by (simp add: iterencode_parts[OF False])
  also have "concat (map snd (doc_parts metadata)) = LBrace # item_tokens True metadata @ [RBrace]"
    by (simp add: doc_parts_def item_tokens_parts)
  finally have l: "lex None (concat (iterencode metadata))
      = Inr (LBrace # item_tokens True metadata @ [RBrace])" .
  have p: "parse_members (item_tokens True metadata @ [RBrace]) = Inr metadata"
    using False by (rule parse_members_full)
  have "json_loads (concat (iterencode metadata)) = Inr (dict_of metadata)"
    unfolding json_loads_def l using p by (simp add: m)
  with assms show ?thesis by (simp add: dict_of_distinct)
qed

lemma json_loads_prefix:
  assumes "lex None s = Inr ts" "prefix ts (LBrace # item_tokens True metadata)"
  shows "json_loads s = Inl JSONDecodeError"
proof -
  from assms(2) consider "ts = []"
    | ts' where "ts = LBrace # ts'" "prefix ts' (item_tokens True metadata)"
    by (auto simp: prefix_Cons)
  then show ?thesis
  proof cases
    case 1
    with assms(1) show ?thesis by (simp add: json_loads_def)
  next
    case 2
    from parse_members_prefix[OF 2(2)] have p: "parse_members ts' = Inl JSONDecodeError" .
    have "ts' = [] \<or> (\<exists>k ts''. ts' = Str k # ts'')"
      using 2(2) by (cases metadata) (auto simp: prefix_Cons)
    with p 2(1) assms(1) show ?thesis by (auto simp: json_loads_def)
  qed
qed

lemma distinct_foldl_update:
  "distinct (map fst acc) \<Longrightarrow> distinct (map fst (foldl (\<lambda>m (k, v). AList.update k v m) acc pairs))"
  by (induction pairs arbitrary: acc) (auto simp: distinct_update)

lemma json_loads_distinct: "json_loads s = Inr metadata \<Longrightarrow> distinct (map fst metadata)"
proof -
  assume a: "json_loads s = Inr metadata"
  then have "metadata = [] \<or> (\<exists>pairs. metadata = dict_of pairs)"
    by (auto simp: json_loads_def split: sum.splits list.splits token.splits if_splits)
  then show ?thesis using distinct_foldl_update[of "[]"] by (auto simp: dict_of_def)
qed

lemma load_metadata_distinct: "load_metadata d = Inr metadata \<Longrightarrow> distinct (map fst metadata)"
  by (auto simp: load_metadata_def split: option.splits dest: json_loads_distinct)

lemma update_metadata_distinct:
  "distinct (map fst metadata) \<Longrightarrow> distinct (map fst (update_metadata metadata tasks))"
  by (induction metadata tasks rule: update_metadata.induct) (auto simp: distinct_update)

lemma load_save_metadata:
  "distinct (map fst metadata) \<Longrightarrow> load_metadata (save_metadata metadata d) = Inr metadata"
  by (simp add: save_metadata_eq load_metadata_def json_loads_iterencode)

lemma partial_escape:
  "strict_prefix q (escape_char c) \<Longrightarrow> lex (Some acc) q = Inl JSONDecodeError"
  by (auto simp: escape_char_def strict_prefix_def prefix_Cons split: if_splits)

lemma lex_string_prefix:
  "prefix q (concat (map escape_char s)) \<Longrightarrow> lex (Some acc) q = Inl JSONDecodeError"
proof (induction s arbitrary: q acc)
  case Nil
  then show ?case by simp
next
  case (Cons c s)
  from Cons.prems have "prefix q (escape_char c @ concat (map escape_char s))" by simp
  then have "prefix q (escape_char c)
      \<or> (\<exists>q'. q = escape_char c @ q' \<and> prefix q' (concat (map escape_char s)))"
    by (simp only: prefix_append)
  moreover have "\<exists>q'. q = escape_char c @ q' \<and> prefix q' (concat (map escape_char s))"
    if "q = escape_char c"
    using that by simp
  ultimately consider "strict_prefix q (escape_char c)"
    | q' where "q = escape_char c @ q'" "prefix q' (concat (map escape_char s))"
    unfolding strict_prefix_def by blast
  then show ?case
  proof cases
    case 1
    then show ?thesis by (rule partial_escape)
  next
    case 2
    from Cons.IH[OF 2(2)] 2(1) show ?thesis by (simp add: lex_escape_char)
  qed
qed

lemma encode_prefix:
  assumes "strict_prefix q (encode_basestring_ascii s)"
  shows "lex None q = Inr [] \<or> lex None q = Inl JSONDecodeError"
proof (cases q)
  case Nil
  then show ?thesis by simp
next
  case (Cons a q')
  with assms have a: "a = CHR 0x22" and "strict_prefix q' (concat (map escape_char s) @ [CHR 0x22])"
    by (auto simp: encode_basestring_ascii_def strict_prefix_def prefix_Cons)
  then have "prefix q' (concat (map escape_char s))"
    by (auto simp: strict_prefix_def prefix_append prefix_Cons)
  then have "lex (Some []) q' = Inl JSONDecodeError" by (rule lex_string_prefix)
  with Cons a show ?thesis by (simp add: is_ws_def)
qed


lemma partial_ok_string: "partial_ok (encode_basestring_ascii s, [Str s])"
  unfolding partial_ok_def
proof (intro allI impI)
  fix q
  assume "strict_prefix q (fst (encode_basestring_ascii s, [Str s]))"
  then have "lex None q = Inr [] \<or> lex None q = Inl JSONDecodeError"
    using encode_prefix[of q s] by simp
  then show "lex None q = Inl JSONDecodeError
      \<or> (\<exists>ts. lex None q = Inr ts \<and> prefix ts (snd (encode_basestring_ascii s, [Str s]))
            \<and> ts \<noteq> [RBrace])"
    by auto
qed

lemma partial_ok_colon: "partial_ok ('': '', [Colon])"
  by (auto simp: partial_ok_def strict_prefix_def prefix_Cons is_ws_def cons_tok_def)

lemma partial_ok_indent: "partial_ok (newline_indent, [])"
  by (auto simp: partial_ok_def newline_indent_def strict_prefix_def prefix_Cons is_ws_def)

lemma partial_ok_comma: "partial_ok (CHR '','' # newline_indent, [Comma])"
  by (auto simp: partial_ok_def newline_indent_def strict_prefix_def prefix_Cons is_ws_def cons_tok_def)

lemma partial_ok_open: "partial_ok (''{'', [LBrace])"
  by (auto simp: partial_ok_def strict_prefix_def prefix_Cons)

lemma partial_ok_close: "partial_ok (''}'', [RBrace])"
  by (auto simp: partial_ok_def strict_prefix_def prefix_Cons)

lemma partial_ok_newline: "partial_ok ([CHR 0x0A], [])"
  by (auto simp: partial_ok_def strict_prefix_def prefix_Cons)

lemma item_parts_partial: "\<forall>p\<in>set (item_parts first items). partial_ok p"
  by (induction first items rule: item_parts.induct)
     (auto simp: partial_ok_string partial_ok_colon partial_ok_comma)

lemma doc_parts_partial: "\<forall>p\<in>set (doc_parts metadata). partial_ok p"
  using item_parts_partial
  by (auto simp: doc_parts_def partial_ok_open partial_ok_close partial_ok_indent partial_ok_newline)

lemma strict_prefix_concat:
  "strict_prefix p (concat cs) \<Longrightarrow>
     \<exists>j q. j < length cs \<and> p = concat (take j cs) @ q \<and> strict_prefix q (cs ! j)"
proof (induction cs arbitrary: p)
  case Nil
  then show ?case by simp
next
  case (Cons c cs)
  from Cons.prems have pre: "prefix p (c @ concat cs)" and ne: "p \<noteq> c @ concat cs"
    by (simp_all add: strict_prefix_def)
  from pre have "prefix p c \<or> (\<exists>p'. p = c @ p' \<and> prefix p' (concat cs))"
    by (simp only: prefix_append)
  moreover have "\<exists>p'. p = c @ p' \<and> prefix p' (concat cs)" if "p = c"
    using that by simp
  ultimately consider "strict_prefix p c"
    | p' where "p = c @ p'" "prefix p' (concat cs)"
    unfolding strict_prefix_def by blast
  then show ?case
  proof cases
    case 1
    then have "0 < length (c # cs) \<and> p = concat (take 0 (c # cs)) @ p
        \<and> strict_prefix p ((c # cs) ! 0)" by simp
    then show ?thesis by blast
  next
    case 2
    with ne have "strict_prefix p' (concat cs)" by (simp add: strict_prefix_def)
    from Cons.IH[OF this] obtain j q
      where "j < length cs" "p' = concat (take j cs) @ q" "strict_prefix q (cs ! j)" by blast
    with 2(1) have "Suc j < length (c # cs) \<and> p = concat (take (Suc j) (c # cs)) @ q
        \<and> strict_prefix q ((c # cs) ! Suc j)" by simp
    then show ?thesis by blast
  qed
qed

lemma json_loads_lex_error: "lex None s = Inl e \<Longrightarrow> json_loads s = Inl e"
  by (simp add: json_loads_def)

lemma json_loads_strict_prefix:
  assumes "strict_prefix p (concat (iterencode metadata))"
  shows "json_loads p = Inl JSONDecodeError"
proof (cases "metadata = []")
  case True
  with assms have "p = [] \<or> p = ''{''"
    by (auto simp: iterencode_def strict_prefix_def prefix_Cons)
  then show ?thesis by (auto simp: json_loads_def is_ws_def cons_tok_def)
next
  case False
  let ?ps = "doc_parts metadata"
  from assms have "strict_prefix p (concat (map fst ?ps))"
    by (simp add: iterencode_parts[OF False])
  from strict_prefix_concat[OF this] obtain j q
    where j: "j < length ?ps" and p: "p = concat (map fst (take j ?ps)) @ q"
      and q: "strict_prefix q (fst (?ps ! j))"
    by (auto simp: take_map)
  have "\<forall>x\<in>set (take j ?ps). lexes_to x"
    using doc_parts_lexes by (auto dest: in_set_takeD)
  from lex_parts[OF this, of q]
  have l: "lex None p = prepend_toks (concat (map snd (take j ?ps))) (lex None q)"
    by (simp only: p)
  from j have "?ps ! j \<in> set ?ps" by (rule nth_mem)
  with doc_parts_partial have "partial_ok (?ps ! j)" by blast
  with q consider "lex None q = Inl JSONDecodeError"
    | ts where "lex None q = Inr ts" "prefix ts (snd (?ps ! j))" "ts \<noteq> [RBrace]"
    unfolding partial_ok_def by blast
  then show ?thesis
  proof cases
    case 1
    with l have "lex None p = Inl JSONDecodeError" by (simp add: prepend_toks_def)
    then show ?thesis by (rule json_loads_lex_error)
  next
    case 2
    with l have lp: "lex None p = Inr (concat (map snd (take j ?ps)) @ ts)"
      by (simp add: prepend_toks_def)
    have "prefix (concat (map snd (take j ?ps)) @ ts) (LBrace # item_tokens True metadata)"
    proof (cases "Suc j < length ?ps")
      case True
      have "prefix (concat (map snd (take j ?ps)) @ ts) (concat (map snd (take (Suc j) ?ps)))"
        using 2(2) j by (simp add: take_Suc_conv_app_nth)
      from this doc_tokens_take[OF True] show ?thesis by (rule prefix_order.trans)
    next
      case False
      define init where "init = [(''{'', [LBrace]), (newline_indent, [])]
          @ item_parts True metadata @ [([CHR 0x0A], [])]"
      have d: "?ps = init @ [(''}'', [RBrace])]" by (simp add: doc_parts_def init_def)
      with j False have "j = length init" by simp
      with d have "?ps ! j = (''}'', [RBrace])" by simp
      with 2(2,3) have "ts = []" by (auto simp: prefix_Cons)
      with doc_tokens_take[OF j] show ?thesis by simp
    qed
    from json_loads_prefix[OF lp this] show ?thesis .
  qed
qed

lemma load_save_metadata_interrupted:
  assumes "0 < k" "k \<le> length (concat (iterencode metadata))"
  shows "load_metadata (save_metadata_interrupted k metadata d) = Inl JSONDecodeError"
proof -
  from assms(1) obtain n where k: "k = Suc n" by (cases k) auto
  with assms(2) have n: "n < length (concat (iterencode metadata))" by simp
  then have "strict_prefix (take n (concat (iterencode metadata))) (concat (iterencode metadata))"
    by (simp add: strict_prefix_def take_is_prefix)
  then have "json_loads (take n (concat (iterencode metadata))) = Inl JSONDecodeError"
    by (rule json_loads_strict_prefix)
  then show ?thesis by (simp add: k save_metadata_interrupted_Suc load_metadata_def)
qed

text \<open>
  Claim C2 as stated fails. The checkpoint file holds the mapping of \<open>A\<close> to 2024-03-01,
  which \<^verbatim>\<open>load_metadata\<close> reads back. The save of a new mapping is the open and 25
  characters; when it is interrupted right after the open, after 12 characters or
  before the last character, the file is left with a text that \<^verbatim>\<open>load_metadata\<close>
  rejects with \<open>JSONDecodeError\<close>.
\<close>

theorem save_interrupted_counterexample:
  "load_metadata (save_metadata [(''A'', ''2024-03-01'')] Map.empty) = Inr [(''A'', ''2024-03-01'')]
   \<and> length (flush_ops [(''A'', ''2024-04-01'')]) = 26
   \<and> load_metadata (save_metadata_interrupted 1 [(''A'', ''2024-04-01'')]
        (save_metadata [(''A'', ''2024-03-01'')] Map.empty)) = Inl JSONDecodeError
   \<and> load_metadata (save_metadata_interrupted 13 [(''A'', ''2024-04-01'')]
        (save_metadata [(''A'', ''2024-03-01'')] Map.empty)) = Inl JSONDecodeError
   \<and> load_metadata (save_metadata_interrupted 25 [(''A'', ''2024-04-01'')]
        (save_metadata [(''A'', ''2024-03-01'')] Map.empty)) = Inl JSONDecodeError"
proof -
  have 1: "load_metadata (save_metadata [(''A'', ''2024-03-01'')] Map.empty)
      = Inr [(''A'', ''2024-03-01'')]" by code_simp
  have 2: "length (flush_ops [(''A'', ''2024-04-01'')]) = 26" by code_simp
  have 3: "load_metadata (save_metadata_interrupted 1 [(''A'', ''2024-04-01'')]
        (save_metadata [(''A'', ''2024-03-01'')] Map.empty)) = Inl JSONDecodeError" by code_simp
  have 4: "load_metadata (save_metadata_interrupted 13 [(''A'', ''2024-04-01'')]
        (save_metadata [(''A'', ''2024-03-01'')] Map.empty)) = Inl JSONDecodeError" by code_simp
  have 5: "load_metadata (save_metadata_interrupted 25 [(''A'', ''2024-04-01'')]
        (save_metadata [(''A'', ''2024-03-01'')] Map.empty)) = Inl JSONDecodeError" by code_simp
  from 1 2 3 4 5 show ?thesis by blast
qed

text \<open>
  Claim C2, amended. \<^verbatim>\<open>save_metadata\<close> overwrites the checkpoint file in place: it
  touches no other path, an interrupted save leaves the file with an initial part of
  the encoding of the mapping, and a save that runs to its end leaves the whole
  encoding, which \<^verbatim>\<open>load_metadata\<close> reads back as the mapping (a dictionary has
  distinct keys). A save interrupted after the file is opened and before the last
  character is written leaves a file that \<^verbatim>\<open>load_metadata\<close> fails to parse.
\<close>

theorem save_overwrites_in_place:
  "save_metadata_interrupted (Suc n) metadata d
     = d(METADATA_FILE \<mapsto> take n (concat (iterencode metadata)))
   \<and> save_metadata metadata d = d(METADATA_FILE \<mapsto> concat (iterencode metadata))
   \<and> (distinct (map fst metadata) \<longrightarrow> load_metadata (save_metadata metadata d) = Inr metadata)
   \<and> (0 < k \<and> k \<le> length (concat (iterencode metadata)) \<longrightarrow>
        load_metadata (save_metadata_interrupted k metadata d) = Inl JSONDecodeError)"
  using load_save_metadata load_save_metadata_interrupted
  by (simp add: save_metadata_interrupted_Suc save_metadata_eq)

text \<open>The save of the mapping of \<open>A\<close> to 2024-04-01, whole and interrupted inside a string.\<close>

theorem save_overwrites_in_place_witness:
  "distinct (map fst [(''A'', ''2024-04-01'')])
   \<and> load_metadata (save_metadata [(''A'', ''2024-04-01'')] Map.empty) = Inr [(''A'', ''2024-04-01'')]
   \<and> 0 < (13::nat) \<and> 13 \<le> length (concat (iterencode [(''A'', ''2024-04-01'')]))
   \<and> save_metadata_interrupted 13 [(''A'', ''2024-04-01'')] Map.empty METADATA_FILE
        = Some (CHR ''{'' # newline_indent @ encode_basestring_ascii ''A'' @ '': '' @ [CHR 0x22])
   \<and> load_metadata (save_metadata_interrupted 13 [(''A'', ''2024-04-01'')] Map.empty)
        = Inl JSONDecodeError"
proof -
  have 1: "distinct (map fst [(''A'', ''2024-04-01'')])" by simp
  have 2: "0 < (13::nat) \<and> 13 \<le> length (concat (iterencode [(''A'', ''2024-04-01'')]))"
    by code_simp
  note t = save_overwrites_in_place[of 12 "[(''A'', ''2024-04-01'')]" Map.empty 13]
  from t 1 have 3: "load_metadata (save_metadata [(''A'', ''2024-04-01'')] Map.empty)
      = Inr [(''A'', ''2024-04-01'')]" by blast
  from t 2 have 4: "load_metadata (save_metadata_interrupted 13 [(''A'', ''2024-04-01'')] Map.empty)
        = Inl JSONDecodeError" by blast
  have "take 12 (concat (iterencode [(''A'', ''2024-04-01'')]))
      = CHR ''{'' # newline_indent @ encode_basestring_ascii ''A'' @ '': '' @ [CHR 0x22]"
    by code_simp
  with t have 5: "save_metadata_interrupted 13 [(''A'', ''2024-04-01'')] Map.empty METADATA_FILE
        = Some (CHR ''{'' # newline_indent @ encode_basestring_ascii ''A'' @ '': '' @ [CHR 0x22])"
    by simp
  from 1 2 3 4 5 show ?thesis by blast
qed

subsection \<open>The run\<close>

text \<open>
  The handler of \<^verbatim>\<open>process_csv\<close> turns an exception of the body into \<^verbatim>\<open>False\<close> when
  its \<^verbatim>\<open>print\<close> returns, and lets the exception of its \<^verbatim>\<open>print\<close> out otherwise. When
  standard output takes every text, every task yields the result of its own body and
  no \<^verbatim>\<open>future.result()\<close> raises (\<open>submit_all_printing\<close>).
\<close>

lemma process_csv_caught:
  "process_csv_try w url ident ttl = Inl e \<Longrightarrow>
     print w (''Error processing '' @ url @ '': '' @ exc_text w e) = None \<Longrightarrow>
     process_csv w url ident ttl = Inr False"
  by (simp add: process_csv_def)

lemma process_csv_escapes:
  "process_csv_try w url ident ttl = Inl e \<Longrightarrow>
     print w (''Error processing '' @ url @ '': '' @ exc_text w e) = Some e' \<Longrightarrow>
     process_csv w url ident ttl = Inl e'"
  by (simp add: process_csv_def)

lemma process_csv_printing:
  "\<forall>text. print w text = None \<Longrightarrow>
     process_csv w url ident ttl = Inr (process_csv_try w url ident ttl = Inr True)"
  by (cases "process_csv_try w url ident ttl") (auto simp: process_csv_def)

lemma future_results_all_values: "future_results (map (\<lambda>t. Inr (f t)) tasks) = Inr ()"
  by (induction tasks) simp_all

lemma submit_all_printing:
  assumes "\<forall>text. print w text = None"
  shows "submit_all w tasks
           = map (\<lambda>(url, ident, dt, ttl). Inr (process_csv_try w url ident ttl = Inr True)) tasks
       \<and> future_results (submit_all w tasks) = Inr ()"
proof -
  have "submit_all w tasks
      = map (\<lambda>t. Inr (case t of (url, ident, dt, ttl) \<Rightarrow>
               process_csv_try w url ident ttl = Inr True)) tasks"
    by (auto simp: submit_all_def process_csv_printing[OF assms])
  moreover from this have "future_results (submit_all w tasks) = Inr ()"
    by (simp only: future_results_all_values)
  ultimately show ?thesis by (auto simp: case_prod_beta)
qed

lemma main_saves:
  assumes "load_metadata d = Inr metadata"
    and "http_get_json w METASTORE_URL = Inr datasets"
    and "select_loop w metadata datasets [] = Inr tasks"
    and "tasks \<noteq> []"
    and "future_results (submit_all w tasks) = Inr ()"
  shows "main w d = Inr (Saved (update_metadata metadata tasks),
                         save_metadata (update_metadata metadata tasks) d)"
  using assms by (simp add: main_def Let_def)

lemma main_aborts:
  assumes "load_metadata d = Inr metadata"
    and "http_get_json w METASTORE_URL = Inr datasets"
    and "select_loop w metadata datasets [] = Inr tasks"
    and "tasks \<noteq> []"
    and "future_results (submit_all w tasks) = Inl e"
  shows "main w d = Inl e"
  using assms by (simp add: main_def Let_def)

lemma update_metadata_other:
  "ident \<notin> task_identifier ` set tasks \<Longrightarrow>
     map_of (update_metadata metadata tasks) ident = map_of metadata ident"
proof (induction tasks arbitrary: metadata)
  case Nil
  then show ?case by simp
next
  case (Cons t tasks)
  obtain url i dt ttl where t: "t = (url, i, dt, ttl)" by (cases t) auto
  with Cons.prems have "i \<noteq> ident" and "ident \<notin> task_identifier ` set tasks"
    by (auto simp: task_identifier_def)
  with Cons.IH t show ?case by (simp add: update_conv')
qed

lemma update_metadata_last:
  "distinct (map task_identifier tasks) \<Longrightarrow> (url, ident, dt, ttl) \<in> set tasks \<Longrightarrow>
     map_of (update_metadata metadata tasks) ident = Some (isoformat dt)"
proof (induction tasks arbitrary: metadata)
  case Nil
  then show ?case by simp
next
  case (Cons t tasks)
  obtain url' i dt' ttl' where t: "t = (url', i, dt', ttl')" by (cases t) auto
  show ?case
  proof (cases "(url, ident, dt, ttl) = t")
    case True
    with Cons.prems(1) have "ident \<notin> task_identifier ` set tasks"
      by (auto simp: task_identifier_def)
    from update_metadata_other[OF this] True t show ?thesis by (simp add: update_conv')
  next
    case False
    with Cons.prems have "(url, ident, dt, ttl) \<in> set tasks" and "distinct (map task_identifier tasks)"
      by auto
    from Cons.IH[OF this(2) this(1)] t show ?thesis by simp
  qed
qed

lemma main_saved_reloads:
  assumes "main w d = Inr (Saved saved, d')"
  shows "load_metadata d' = Inr saved"
proof -
  from assms obtain metadata tasks where l: "load_metadata d = Inr metadata"
    and s: "saved = update_metadata metadata tasks" and d': "d' = save_metadata saved d"
    by (auto simp: main_def Let_def split: sum.splits if_splits option.splits)
  from load_metadata_distinct[OF l] have "distinct (map fst saved)"
    unfolding s by (rule update_metadata_distinct)
  then show ?thesis unfolding d' by (rule load_save_metadata)
qed

text \<open>
  Claim C1 does not hold of the program. With no checkpoint file, the catalog holding
  the dataset \<open>A\<close> and every download failing, \<^verbatim>\<open>process_csv\<close> returns \<^verbatim>\<open>False\<close> for
  \<open>A\<close>, whose identifier has no watermark before the run, and the run saves the
  checkpoint that maps \<open>A\<close> to 2024-03-01: the last loop of \<^verbatim>\<open>main\<close> ranges over
  \<^verbatim>\<open>to_download\<close> and never reads the results.
\<close>

theorem failed_task_watermark_advanced:
  "process_csv offline_world ''https://data.cms.gov/A.csv'' ''A'' ''Hospital General Information''
     = Inr False
   \<and> load_metadata Map.empty = Inr []
   \<and> select_loop offline_world [] [dataset_A] [] = Inr [task_A]
   \<and> main offline_world Map.empty
       = Inr (Saved [(''A'', ''2024-03-01'')], save_metadata [(''A'', ''2024-03-01'')] Map.empty)"
proof -
  have 1: "process_csv offline_world ''https://data.cms.gov/A.csv'' ''A'' ''Hospital General Information''
     = Inr False" by (simp add: process_csv_def process_csv_try_def offline_world_def)
  have 2: "load_metadata Map.empty = Inr []" by (simp add: load_metadata_def)
  have 3: "select_loop offline_world [] [dataset_A] [] = Inr [task_A]" by code_simp
  have 4: "http_get_json offline_world METASTORE_URL = Inr [dataset_A]"
    by (simp add: offline_world_def)
  have 5: "update_metadata [] [task_A] = [(''A'', ''2024-03-01'')]" by code_simp
  have 6: "[task_A] \<noteq> []" by simp
  have 7: "future_results (submit_all offline_world [task_A]) = Inr ()"
    using 1 by (simp add: submit_all_def task_A_def)
  from main_saves[OF 2 4 3 6 7] 5 have "main offline_world Map.empty
       = Inr (Saved [(''A'', ''2024-03-01'')], save_metadata [(''A'', ''2024-03-01'')] Map.empty)"
    by simp
  with 1 2 3 show ?thesis by blast
qed

text \<open>
  Claim C6. In a run that loads its checkpoint and its catalog, selects tasks with
  pairwise different identifiers and in which no call of \<^verbatim>\<open>future.result()\<close> raises,
  for every task whose \<^verbatim>\<open>process_csv\<close> returned \<^verbatim>\<open>True\<close> the run reaches
  \<^verbatim>\<open>save_metadata\<close>, the dictionary it saves maps the task's identifier to the ISO form
  of the task's date, which parses back to that date, the checkpoint file left by the
  run loads as the saved dictionary, and the date is the parsed \<^verbatim>\<open>modified\<close> field of a
  descriptor of the catalog with that identifier.
\<close>

theorem successful_task_watermark:
  assumes "load_metadata d = Inr metadata"
    and "http_get_json w METASTORE_URL = Inr datasets"
    and "select_loop w metadata datasets [] = Inr tasks"
    and "distinct (map task_identifier tasks)"
    and "(url, ident, dt, ttl) \<in> set tasks"
    and "process_csv w url ident ttl = Inr True"
    and "future_results (submit_all w tasks) = Inr ()"
  shows "\<exists>saved d'. main w d = Inr (Saved saved, d')
           \<and> map_of saved ident = Some (isoformat dt)
           \<and> load_metadata d' = Inr saved
           \<and> strptime (isoformat dt) = Some dt
           \<and> (\<exists>ds s. ds \<in> set datasets \<and> identifier ds = Some ident
                 \<and> modified ds = Some s \<and> strptime s = Some dt)"
proof -
  from assms(5) have ne: "tasks \<noteq> []" by auto
  note m = main_saves[OF assms(1) assms(2) assms(3) ne assms(7)]
  have v: "map_of (update_metadata metadata tasks) ident = Some (isoformat dt)"
    using assms(4) assms(5) by (rule update_metadata_last)
  from select_loop_member[OF assms(3) assms(5)] obtain ds
    where ds: "ds \<in> set datasets" "select_one w metadata ds = Inr (Some (url, ident, dt, ttl))"
    by blast
  from select_one_SomeD[OF ds(2)] obtain s where
    s: "identifier ds = Some ident" "modified ds = Some s" "strptime s = Some dt" by auto
  from s(3) have r: "strptime (isoformat dt) = Some dt" by (rule strptime_roundtrip)
  from m have "load_metadata (save_metadata (update_metadata metadata tasks) d)
      = Inr (update_metadata metadata tasks)" by (rule main_saved_reloads)
  with r s ds(1) m v show ?thesis by blast
qed

text \<open>The run over the dataset \<open>A\<close> with no checkpoint file, every download succeeding.\<close>

theorem successful_task_watermark_witness:
  "load_metadata Map.empty = Inr []
   \<and> select_loop online_world [] [dataset_A] [] = Inr [task_A]
   \<and> process_csv online_world ''https://data.cms.gov/A.csv'' ''A'' ''Hospital General Information''
        = Inr True
   \<and> future_results (submit_all online_world [task_A]) = Inr ()
   \<and> (\<exists>saved d'. main online_world Map.empty = Inr (Saved saved, d')
         \<and> map_of saved ''A'' = Some ''2024-03-01'')"
proof -
  have 1: "load_metadata Map.empty = Inr []" by (simp add: load_metadata_def)
  have 2: "http_get_json online_world METASTORE_URL = Inr [dataset_A]"
    by (simp add: online_world_def)
  have 3: "select_loop online_world [] [dataset_A] [] = Inr [task_A]" by code_simp
  have 4: "distinct (map task_identifier [task_A])" by simp
  have 5: "(''https://data.cms.gov/A.csv'', ''A'', Date 2024 3 1, ''Hospital General Information'')
            \<in> set [task_A]" by (simp add: task_A_def)
  have 6: "process_csv online_world ''https://data.cms.gov/A.csv'' ''A'' ''Hospital General Information''
        = Inr True" by (simp add: process_csv_def process_csv_try_def online_world_def)
  have 7: "isoformat (Date 2024 3 1) = ''2024-03-01''" by code_simp
  have 8: "future_results (submit_all online_world [task_A]) = Inr ()"
    using 6 by (simp add: submit_all_def task_A_def)
  from successful_task_watermark[OF 1 2 3 4 5 6 8] 7
  have "\<exists>saved d'. main online_world Map.empty = Inr (Saved saved, d')
         \<and> map_of saved ''A'' = Some ''2024-03-01''" by auto
  with 1 3 6 8 show ?thesis by blast
qed

text \<open>
  Claim C8 does not hold of the program. With no checkpoint file, the catalog holding
  the datasets \<open>E\<close> and \<open>A\<close> and an ASCII standard output, the download of \<open>E\<close> fails
  inside the \<^verbatim>\<open>try\<close>; the handler's \<^verbatim>\<open>print\<close> of the URL raises
  \<^verbatim>\<open>UnicodeEncodeError\<close>, which is the outcome of \<^verbatim>\<open>process_csv\<close> instead of
  \<^verbatim>\<open>False\<close>. The task of \<open>A\<close> returns \<^verbatim>\<open>True\<close>, but \<^verbatim>\<open>future.result()\<close> raises for
  \<open>E\<close> and the run ends with that exception: no checkpoint is saved.
\<close>

theorem handler_print_aborts_run:
  "load_metadata Map.empty = Inr []
   \<and> select_loop ascii_world [] [dataset_E, dataset_A] [] = Inr [task_E, task_A]
   \<and> process_csv_try ascii_world url_E ''E'' ''Hospital Readmissions'' = Inl RequestException
   \<and> print ascii_world (''Error processing '' @ url_E @ '': '' @ exc_text ascii_world RequestException)
        = Some UnicodeEncodeError
   \<and> process_csv ascii_world url_E ''E'' ''Hospital Readmissions'' = Inl UnicodeEncodeError
   \<and> process_csv ascii_world ''https://data.cms.gov/A.csv'' ''A'' ''Hospital General Information''
        = Inr True
   \<and> submit_all ascii_world [task_E, task_A] = [Inl UnicodeEncodeError, Inr True]
   \<and> main ascii_world Map.empty = Inl UnicodeEncodeError"
proof -
  have 1: "load_metadata Map.empty = Inr []" by (simp add: load_metadata_def)
  have 2: "http_get_json ascii_world METASTORE_URL = Inr [dataset_E, dataset_A]"
    by (simp add: ascii_world_def)
  have 3: "select_loop ascii_world [] [dataset_E, dataset_A] [] = Inr [task_E, task_A]"
    by code_simp
  have 4: "process_csv_try ascii_world url_E ''E'' ''Hospital Readmissions'' = Inl RequestException"
    by (simp add: process_csv_try_def ascii_world_def)
  have 5: "print ascii_world (''Error processing '' @ url_E @ '': '' @ exc_text ascii_world RequestException)
        = Some UnicodeEncodeError" by code_simp
  from 4 5 have 6: "process_csv ascii_world url_E ''E'' ''Hospital Readmissions''
        = Inl UnicodeEncodeError" by (rule process_csv_escapes)
  have 7: "process_csv ascii_world ''https://data.cms.gov/A.csv'' ''A'' ''Hospital General Information''
        = Inr True" by code_simp
  from 6 7 have 8: "submit_all ascii_world [task_E, task_A] = [Inl UnicodeEncodeError, Inr True]"
    by (simp add: submit_all_def task_E_def task_A_def)
  then have 9: "future_results (submit_all ascii_world [task_E, task_A]) = Inl UnicodeEncodeError"
    by simp
  have 10: "[task_E, task_A] \<noteq> []" by simp
  from main_aborts[OF 1 2 3 10 9] have "main ascii_world Map.empty = Inl UnicodeEncodeError" .
  with 1 3 4 5 6 7 8 show ?thesis by blast
qed

end
